theory Spec2Isabelle
  imports Main "HOL-Library.Word"
begin

unbundle bit_operations_syntax

section \<open>The machine state used by CandleFlickerLED.c\<close>

text \<open>
  The flicker engine is the interrupt routine \<open>TIM0_OVF_vect\<close>, written as inline AVR
  assembly.  It works on six 8-bit registers: \<open>r20\<close> .. \<open>r23\<close> hold the 32-bit generator
  \<open>RAND\<close> (\<open>r20\<close> is the low byte), \<open>r24\<close> is the frame counter \<open>FRAME_CTR\<close> and \<open>r31\<close> is
  scratch.  Of the status register only the zero flag and the carry flag are ever read by
  the routine, so only these two are modelled.  The single output is the PWM comparator
  \<open>OCR0A\<close>.

  Two fields are bookkeeping that the hardware does not have: \<open>port_log\<close> lists every
  byte the \<open>out\<close> instruction has written, oldest first, and \<open>path\<close> lists the labels
  control has passed.
\<close>

type_synonym u8 = "8 word"
type_synonym u32 = "32 word"

datatype reg = R20 | R21 | R22 | R23 | R24 | R31

datatype label = NEW_RAND | NEW_PWM | SET_PWM | RETI

record avr =
  regs :: "reg \<Rightarrow> u8"
  flagZ :: bool
  flagC :: bool
  OCR0A :: u8
  port_log :: "u8 list"
  path :: "label list"

definition LFSR_FEEDBACK_TERM :: u32 where
  "LFSR_FEEDBACK_TERM = 0x7FFFF159"

text \<open>The macro \<open>low_byte(x) ((uint8_t) x)\<close>.\<close>

definition low_byte :: "u32 \<Rightarrow> u8" where
  "low_byte x = ucast x"

text \<open>The generator as the 32-bit value the four registers hold together.\<close>

definition RAND :: "avr \<Rightarrow> u32" where
  "RAND s = push_bit 24 (ucast (regs s R23)) OR push_bit 16 (ucast (regs s R22))
            OR push_bit 8 (ucast (regs s R21)) OR ucast (regs s R20)"

definition FRAME_CTR :: "avr \<Rightarrow> u8" where
  "FRAME_CTR s = regs s R24"

section \<open>The instructions\<close>

text \<open>
  Each instruction is a function on the state, following the AVR instruction set manual
  for the result and for the flags Z and C.
\<close>

definition set_reg :: "reg \<Rightarrow> u8 \<Rightarrow> avr \<Rightarrow> avr" where
  "set_reg d v s = s\<lparr>regs := (regs s)(d := v)\<rparr>"

definition set_reg_Z :: "reg \<Rightarrow> u8 \<Rightarrow> avr \<Rightarrow> avr" where
  "set_reg_Z d v s = s\<lparr>regs := (regs s)(d := v), flagZ := (v = 0)\<rparr>"

definition INC :: "reg \<Rightarrow> avr \<Rightarrow> avr" where
  "INC d s = set_reg_Z d (regs s d + 1) s"

definition ANDI :: "reg \<Rightarrow> u8 \<Rightarrow> avr \<Rightarrow> avr" where
  "ANDI d k s = set_reg_Z d (regs s d AND k) s"

definition ORI :: "reg \<Rightarrow> u8 \<Rightarrow> avr \<Rightarrow> avr" where
  "ORI d k s = set_reg_Z d (regs s d OR k) s"

definition EOR :: "reg \<Rightarrow> reg \<Rightarrow> avr \<Rightarrow> avr" where
  "EOR d r s = set_reg_Z d (regs s d XOR regs s r) s"

definition MOV :: "reg \<Rightarrow> reg \<Rightarrow> avr \<Rightarrow> avr" where
  "MOV d r s = set_reg d (regs s r) s"

definition LDI :: "reg \<Rightarrow> u8 \<Rightarrow> avr \<Rightarrow> avr" where
  "LDI d k s = set_reg d k s"

definition TST :: "reg \<Rightarrow> avr \<Rightarrow> avr" where
  "TST d s = s\<lparr>flagZ := (regs s d AND regs s d = 0)\<rparr>"

definition CPI :: "reg \<Rightarrow> u8 \<Rightarrow> avr \<Rightarrow> avr" where
  "CPI d k s = s\<lparr>flagZ := (regs s d - k = 0), flagC := (regs s d < k)\<rparr>"

text \<open>\<open>lsr\<close>: bit 0 goes to the carry, a zero comes in at bit 7.\<close>

definition LSR :: "reg \<Rightarrow> avr \<Rightarrow> avr" where
  "LSR d s = (set_reg_Z d (drop_bit 1 (regs s d)) s)\<lparr>flagC := bit (regs s d) 0\<rparr>"

text \<open>\<open>ror\<close>: bit 0 goes to the carry, the old carry comes in at bit 7.\<close>

definition ROR :: "reg \<Rightarrow> avr \<Rightarrow> avr" where
  "ROR d s =
     (set_reg_Z d (drop_bit 1 (regs s d) OR (if flagC s then 0x80 else 0)) s)
       \<lparr>flagC := bit (regs s d) 0\<rparr>"

text \<open>\<open>com\<close>: one's complement, \<open>0xFF - Rd\<close>; the carry is set.\<close>

definition COM :: "reg \<Rightarrow> avr \<Rightarrow> avr" where
  "COM d s = (set_reg_Z d (0xFF - regs s d) s)\<lparr>flagC := True\<rparr>"

text \<open>\<open>swap\<close>: exchanges the two nibbles.\<close>

definition SWAP :: "reg \<Rightarrow> avr \<Rightarrow> avr" where
  "SWAP d s = set_reg d (push_bit 4 (regs s d) OR drop_bit 4 (regs s d)) s"

text \<open>\<open>out %0,r\<close> with \<open>%0\<close> the address of \<open>OCR0A\<close>.\<close>

definition OUT_OCR0A :: "reg \<Rightarrow> avr \<Rightarrow> avr" where
  "OUT_OCR0A r s = s\<lparr>OCR0A := regs s r, port_log := port_log s @ [regs s r]\<rparr>"

definition at_label :: "label \<Rightarrow> avr \<Rightarrow> avr" where
  "at_label l s = s\<lparr>path := path s @ [l]\<rparr>"

section \<open>The interrupt routine\<close>

text \<open>
  The routine is translated label by label, in the order of the source, each block
  ending in the block it falls or jumps into.  \<open>sbrc r,b\<close> skips the next instruction
  when bit \<open>b\<close> of \<open>r\<close> is clear; \<open>breq\<close> branches when Z is set, \<open>brne\<close> when it is
  clear.
\<close>

definition LRETI :: "avr \<Rightarrow> avr" where
  "LRETI s = at_label RETI s"

definition LSET_PWM :: "avr \<Rightarrow> avr" where
  "LSET_PWM s = LRETI (OUT_OCR0A R31 (at_label SET_PWM s))"

text \<open>Lines 158 to 167.\<close>

definition LNEW_PWM :: "avr \<Rightarrow> avr" where
  "LNEW_PWM s0 =
     (let s1 = CPI R24 0x1F (at_label NEW_PWM s0) in
      if \<not> flagZ s1 then LRETI s1
      else
        let s2 = LDI R31 0xFF s1 in
        if bit (regs s2 R20) 4 then LSET_PWM s2
        else LSET_PWM (ORI R31 0x0F (SWAP R31 (MOV R31 R20 s2))))"

text \<open>
  Lines 130 to 147: the shift of the four bytes through the carry and the feedback.
  The \<open>rjmp\<close> after \<open>sbrc r31,0\<close> is skipped when bit 0 of the old low byte is clear, so
  the four exclusive-ors are executed in that case, and jumped over when the bit is set.
\<close>

definition lfsr_advance :: "avr \<Rightarrow> avr" where
  "lfsr_advance s0 =
     (let s1 = ROR R20 (ROR R21 (ROR R22 (LSR R23 (MOV R31 R20 s0)))) in
      if bit (regs s1 R31) 0 then s1
      else EOR R23 R31 (LDI R31 0x7F (COM R22
             (EOR R21 R31 (LDI R31 0xF1 (EOR R20 R31 (LDI R31 0x59 s1)))))))"

definition LNEW_RAND :: "avr \<Rightarrow> avr" where
  "LNEW_RAND s = LNEW_PWM (lfsr_advance (at_label NEW_RAND s))"

text \<open>Lines 109 to 127, from the entry of the routine.\<close>

definition TIM0_OVF_vect :: "avr \<Rightarrow> avr" where
  "TIM0_OVF_vect s0 =
     (let s1 = TST R24 (MOV R31 R24 (ANDI R24 0x1F (INC R24 s0))) in
      if flagZ s1 then LNEW_RAND s1
      else
        let s2 = ANDI R31 7 s1 in
        if \<not> flagZ s2 then LNEW_PWM s2
        else
          let s3 = ANDI R31 12 (MOV R31 R20 s2) in
          if \<not> flagZ s3 then LNEW_PWM s3
          else LNEW_RAND s3)"

text \<open>
  The state \<open>main\<close> leaves behind: \<open>r20\<close> .. \<open>r24\<close> are copied from the zero register
  \<open>r1\<close> and \<open>OCR0A\<close> is set to 0.  \<open>r31\<close> and the flags are written by the routine
  before it reads them; they are taken as zero here.
\<close>

definition power_on :: avr where
  "power_on = \<lparr>regs = (\<lambda>_. 0), flagZ = False, flagC = False, OCR0A = 0,
                port_log = [], path = []\<rparr>"

section \<open>The routine read at the level of the C comments\<close>

text \<open>
  The comments of the source describe the routine in C: \<open>FRAME_CTR++\<close>,
  \<open>FRAME_CTR &= 0x1F\<close>, \<open>RAND >>= 1\<close>, \<open>RAND ^= LFSR_FEEDBACK_TERM\<close>,
  \<open>PWM = (low_byte(RAND) << 4) | 0xF\<close>.  The following functions are these readings;
  they are connected to the assembly by the lemmas of the next sections.
\<close>

definition next_ctr :: "u8 \<Rightarrow> u8" where
  "next_ctr c = (c + 1) AND 0x1F"

text \<open>What the instructions between \<open>.LNEW_RAND\<close> and \<open>.LNEW_PWM\<close> do to \<open>RAND\<close>.\<close>

definition lfsr_next :: "u32 \<Rightarrow> u32" where
  "lfsr_next x = (if bit x 0 then drop_bit 1 x else drop_bit 1 x XOR LFSR_FEEDBACK_TERM)"

text \<open>The condition under which the entry block reaches \<open>.LNEW_RAND\<close>.\<close>

definition regen_due :: "avr \<Rightarrow> bool" where
  "regen_due s = (next_ctr (regs s R24) = 0 \<or>
                  (next_ctr (regs s R24) AND 7 = 0 \<and> regs s R20 AND 12 = 0))"

text \<open>The byte \<open>r31\<close> holds when \<open>.LSET_PWM\<close> is reached, from the low byte of \<open>RAND\<close>.\<close>

definition pwm_byte :: "u8 \<Rightarrow> u8" where
  "pwm_byte x = (if bit x 4 then 0xFF else (push_bit 4 x OR drop_bit 4 x) OR 0x0F)"

text \<open>Four bytes as one 32-bit value, and the byte \<open>ror\<close> computes from a carry.\<close>

definition cat4 :: "u8 \<Rightarrow> u8 \<Rightarrow> u8 \<Rightarrow> u8 \<Rightarrow> u32" where
  "cat4 d c b a = push_bit 24 (ucast d) OR push_bit 16 (ucast c) OR push_bit 8 (ucast b) OR ucast a"

definition rorb :: "bool \<Rightarrow> u8 \<Rightarrow> u8" where
  "rorb cy x = drop_bit 1 x OR (if cy then 0x80 else 0)"

text \<open>
  The regeneration step as the specification words it: the feedback constant is applied
  when the bit shifted out is 1.
\<close>

definition spec_regeneration_step :: "u32 \<Rightarrow> u32" where
  "spec_regeneration_step x =
     (let outBit = bit x 0; shifted = drop_bit 1 x
      in if outBit then shifted XOR LFSR_FEEDBACK_TERM else shifted)"

section \<open>Affine maps on bit vectors\<close>

text \<open>
  The regeneration step is an affine map over GF(2): a linear map, given by the images of
  the 32 unit vectors, followed by an exclusive-or with a constant.  Bit vectors are
  integers here.  \<open>lin cs x\<close> is the exclusive-or of the columns \<open>cs\<close> selected by the bits
  of \<open>x\<close>, lowest bit first.  \<open>affine_pow a bs acc\<close> squares \<open>acc\<close> for each digit in \<open>bs\<close>
  and composes with \<open>a\<close> where the digit is set, so that it iterates \<open>a\<close> as many times as
  the binary numeral says.
\<close>

type_synonym affine = "int list \<times> int"

fun lin :: "int list \<Rightarrow> int \<Rightarrow> int" where
  "lin [] x = 0"
| "lin (c # cs) x = (if odd x then c else 0) XOR lin cs (x div 2)"

definition affine_app :: "affine \<Rightarrow> int \<Rightarrow> int" where
  "affine_app a x = lin (fst a) x XOR snd a"

definition affine_comp :: "affine \<Rightarrow> affine \<Rightarrow> affine" where
  "affine_comp a b = (map (lin (fst a)) (fst b), affine_app a (snd b))"

fun units :: "nat \<Rightarrow> int list" where
  "units 0 = []"
| "units (Suc k) = 1 # map (\<lambda>c. 2 * c) (units k)"

fun affine_pow :: "affine \<Rightarrow> bool list \<Rightarrow> affine \<Rightarrow> affine" where
  "affine_pow a [] acc = acc"
| "affine_pow a (b # bs) acc =
     affine_pow a bs (if b then affine_comp a (affine_comp acc acc) else affine_comp acc acc)"

fun bits_nat :: "bool list \<Rightarrow> nat \<Rightarrow> nat" where
  "bits_nat [] v = v"
| "bits_nat (b # bs) v = bits_nat bs (if b then Suc (2 * v) else 2 * v)"

definition lfsr_affine :: affine where
  "lfsr_affine = (0x7FFFF159 # units 31, 0x7FFFF159)"

text \<open>The binary digits of 436905 after the leading one.\<close>

definition period_bits :: "bool list" where
  "period_bits = [True, False, True, False, True, False, True, False, True, False, True, False,
                  True, False, True, False, False, True]"

section \<open>What one tick does, as seen from outside\<close>

text \<open>The labels passed and the bytes written during the tick that starts in \<open>s\<close>.\<close>

definition tick_labels :: "avr \<Rightarrow> label list" where
  "tick_labels s = drop (length (path s)) (path (TIM0_OVF_vect s))"

definition tick_writes :: "avr \<Rightarrow> u8 list" where
  "tick_writes s = drop (length (port_log s)) (port_log (TIM0_OVF_vect s))"

text \<open>A regeneration occurs in a tick when control passes \<open>.LNEW_RAND\<close>.\<close>

definition regenerates :: "avr \<Rightarrow> bool" where
  "regenerates s \<longleftrightarrow> NEW_RAND \<in> set (tick_labels s)"

text \<open>Counts over the history of a state: bytes written, and passages of \<open>.LNEW_RAND\<close>.\<close>

definition commits :: "avr \<Rightarrow> nat" where
  "commits s = length (port_log s)"

definition regenerations :: "avr \<Rightarrow> nat" where
  "regenerations s = count_list (path s) NEW_RAND"

text \<open>
  States for the examples: frame counter \<open>c\<close>, generator low byte \<open>g\<close>, everything else
  as at power-on.
\<close>

definition example_state :: "u8 \<Rightarrow> u8 \<Rightarrow> avr" where
  "example_state c g = power_on\<lparr>regs := (regs power_on)(R24 := c, R20 := g)\<rparr>"

section \<open>The engine as a function\<close>

text \<open>
  What a tick does to the frame counter, the generator and the list of bytes written,
  as one function on these three; \<open>observe\<close> reads them off a machine state.
\<close>

definition engine_tick :: "u8 \<times> u32 \<times> u8 list \<Rightarrow> u8 \<times> u32 \<times> u8 list" where
  "engine_tick = (\<lambda>(c, x, ws).
     let c' = next_ctr c;
         x' = (if c' = 0 \<or> (c' AND 7 = 0 \<and> low_byte x AND 12 = 0) then lfsr_next x else x)
     in (c', x', if c' = 0x1F then ws @ [pwm_byte (low_byte x')] else ws))"

definition observe :: "avr \<Rightarrow> u8 \<times> u32 \<times> u8 list" where
  "observe s = (FRAME_CTR s, RAND s, port_log s)"

section \<open>Bytes and words\<close>

lemma less8_cases: "i < 8 \<Longrightarrow> i \<in> {7, 6, 5, 4, 3, 2, 1, 0 :: nat}"
  by auto

lemma u8_eq_bits:
  "a = b \<longleftrightarrow> (bit a 0 = bit b 0 \<and> bit a 1 = bit b 1 \<and> bit a 2 = bit b 2 \<and> bit a 3 = bit b 3
     \<and> bit a 4 = bit b 4 \<and> bit a 5 = bit b 5 \<and> bit a 6 = bit b 6 \<and> bit a 7 = bit b 7)"
  for a b :: u8
proof
  assume r: "bit a 0 = bit b 0 \<and> bit a 1 = bit b 1 \<and> bit a 2 = bit b 2 \<and> bit a 3 = bit b 3
     \<and> bit a 4 = bit b 4 \<and> bit a 5 = bit b 5 \<and> bit a 6 = bit b 6 \<and> bit a 7 = bit b 7"
  show "a = b"
  proof (rule bit_word_eqI)
    fix n assume "n < LENGTH(8)"
    then have "n < 8" by simp
    from less8_cases[OF this] r show "bit a n = bit b n" by auto
  qed
qed simp

lemma bit_cat4:
  "bit (cat4 d c b a) n \<longleftrightarrow>
     (if n < 8 then bit a n else if n < 16 then bit b (n - 8)
      else if n < 24 then bit c (n - 16) else n < 32 \<and> bit d (n - 24))"
  by (auto simp: cat4_def bit_simps dest: bit_imp_le_length)

lemma cat4_xor:
  "cat4 d c b a XOR cat4 d' c' b' a' = cat4 (d XOR d') (c XOR c') (b XOR b') (a XOR a')"
  by (rule bit_word_eqI) (auto simp: bit_cat4 bit_simps)

lemma bit_0x80: "bit (0x80 :: int) n \<longleftrightarrow> n = 7"
proof -
  have "(0x80 :: int) = 2 ^ 7" by simp
  then show ?thesis by (simp only: bit_exp_iff) auto
qed

lemma bit_rorb: "bit (rorb cy x) n \<longleftrightarrow> (if n = 7 then cy else n < 7 \<and> bit x (Suc n))"
  by (auto simp: rorb_def bit_simps bit_0x80 dest: bit_imp_le_length)

lemma sub_shift:
  "\<not> n < 8 \<Longrightarrow> n - 7 = Suc (n - 8)"
  "\<not> n < 16 \<Longrightarrow> n - 15 = Suc (n - 16)"
  "\<not> n < 24 \<Longrightarrow> n - 23 = Suc (n - 24)"
  by simp_all

text \<open>The chain \<open>lsr r23; ror r22; ror r21; ror r20\<close> is a 32-bit shift by one.\<close>

lemma cat4_shift:
  "drop_bit (Suc 0) (cat4 d c b a) =
     cat4 (rorb False d) (rorb (bit d 0) c) (rorb (bit c 0) b) (rorb (bit b 0) a)"
  by (rule bit_word_eqI) (auto simp: bit_cat4 bit_rorb bit_simps sub_shift)

lemma bit0_cat4: "bit (cat4 d c b a) 0 = bit a 0"
  by (simp add: bit_cat4)

lemma feedback_cat4: "LFSR_FEEDBACK_TERM = cat4 0x7F 0xFF 0xF1 0x59"
  by (simp add: cat4_def LFSR_FEEDBACK_TERM_def)

lemma com_xor: "0xFF - x = (x XOR 0xFF :: u8)"
proof -
  have a: "(0xFF :: u8) = - 1" by simp
  have "- 1 - x = NOT x" by (simp add: not_eq_complement)
  moreover have "x XOR - 1 = NOT x" by simp
  ultimately have "- 1 - x = x XOR - 1" by (rule trans[OF _ sym])
  then show ?thesis by (simp only: a)
qed

lemma RAND_cat4: "RAND s = cat4 (regs s R23) (regs s R22) (regs s R21) (regs s R20)"
  by (simp add: RAND_def cat4_def)

lemma low_byte_RAND: "low_byte (RAND s) = regs s R20"
  by (rule bit_word_eqI)
    (auto simp: low_byte_def RAND_cat4 bit_cat4 bit_simps dest: bit_imp_le_length)

section \<open>The blocks of the routine\<close>

lemmas insn_defs = set_reg_def set_reg_Z_def INC_def ANDI_def ORI_def EOR_def MOV_def LDI_def
  TST_def CPI_def LSR_def ROR_def COM_def SWAP_def OUT_OCR0A_def at_label_def

lemma lfsr_advance_regs:
  "regs (lfsr_advance s) R23 =
     rorb False (regs s R23) XOR (if bit (regs s R20) 0 then 0 else 0x7F)"
  "regs (lfsr_advance s) R22 =
     rorb (bit (regs s R23) 0) (regs s R22) XOR (if bit (regs s R20) 0 then 0 else 0xFF)"
  "regs (lfsr_advance s) R21 =
     rorb (bit (regs s R22) 0) (regs s R21) XOR (if bit (regs s R20) 0 then 0 else 0xF1)"
  "regs (lfsr_advance s) R20 =
     rorb (bit (regs s R21) 0) (regs s R20) XOR (if bit (regs s R20) 0 then 0 else 0x59)"
  "regs (lfsr_advance s) R24 = regs s R24"
  by (simp_all add: lfsr_advance_def Let_def insn_defs rorb_def com_xor)

lemma lfsr_advance_frame:
  "OCR0A (lfsr_advance s) = OCR0A s"
  "port_log (lfsr_advance s) = port_log s"
  "path (lfsr_advance s) = path s"
  by (simp_all add: lfsr_advance_def Let_def insn_defs)

lemma RAND_lfsr_advance: "RAND (lfsr_advance s) = lfsr_next (RAND s)"
  by (simp add: RAND_cat4 lfsr_advance_regs lfsr_next_def bit0_cat4 cat4_shift
      feedback_cat4 cat4_xor)

lemma LNEW_PWM_regs: "r \<noteq> R31 \<Longrightarrow> regs (LNEW_PWM s) r = regs s r"
  by (simp add: LNEW_PWM_def LSET_PWM_def LRETI_def Let_def insn_defs)

lemma LNEW_PWM_out:
  "OCR0A (LNEW_PWM s) = (if regs s R24 = 0x1F then pwm_byte (regs s R20) else OCR0A s)"
  "port_log (LNEW_PWM s) =
     port_log s @ (if regs s R24 = 0x1F then [pwm_byte (regs s R20)] else [])"
  "path (LNEW_PWM s) =
     path s @ NEW_PWM # (if regs s R24 = 0x1F then [SET_PWM, RETI] else [RETI])"
  by (simp_all add: LNEW_PWM_def LSET_PWM_def LRETI_def Let_def insn_defs pwm_byte_def)

section \<open>One tick\<close>

lemma tick_regs:
  "regs (TIM0_OVF_vect s) R24 = next_ctr (regs s R24)"
  "regs (TIM0_OVF_vect s) R20 = (if regen_due s then regs (lfsr_advance s) R20 else regs s R20)"
  "regs (TIM0_OVF_vect s) R21 = (if regen_due s then regs (lfsr_advance s) R21 else regs s R21)"
  "regs (TIM0_OVF_vect s) R22 = (if regen_due s then regs (lfsr_advance s) R22 else regs s R22)"
  "regs (TIM0_OVF_vect s) R23 = (if regen_due s then regs (lfsr_advance s) R23 else regs s R23)"
  by (simp_all add: TIM0_OVF_vect_def LNEW_RAND_def LNEW_PWM_regs lfsr_advance_regs Let_def
      insn_defs next_ctr_def regen_due_def)

lemma RAND_tick:
  "RAND (TIM0_OVF_vect s) = (if regen_due s then RAND (lfsr_advance s) else RAND s)"
  by (simp add: RAND_def tick_regs)

lemma tick_out:
  "OCR0A (TIM0_OVF_vect s) =
     (if next_ctr (regs s R24) = 0x1F then pwm_byte (regs s R20) else OCR0A s)"
  "port_log (TIM0_OVF_vect s) =
     port_log s @ (if next_ctr (regs s R24) = 0x1F then [pwm_byte (regs s R20)] else [])"
  "path (TIM0_OVF_vect s) =
     path s @ (if regen_due s then [NEW_RAND] else []) @
       NEW_PWM # (if next_ctr (regs s R24) = 0x1F then [SET_PWM, RETI] else [RETI])"
  by (simp_all add: TIM0_OVF_vect_def LNEW_RAND_def LNEW_PWM_regs LNEW_PWM_out
      lfsr_advance_regs lfsr_advance_frame Let_def insn_defs next_ctr_def regen_due_def)

lemma regen_due_not_31: "next_ctr (regs s R24) = 0x1F \<Longrightarrow> \<not> regen_due s"
  by (simp add: regen_due_def)

lemma next_ctr_checkpoint:
  "(next_ctr c \<noteq> 0 \<and> next_ctr c AND 7 = 0) \<longleftrightarrow> next_ctr c \<in> {8, 16, 24}"
  by (auto simp add: next_ctr_def u8_eq_bits bit_simps)

lemma and12: "(g AND 12 = 0) \<longleftrightarrow> (\<not> bit g 2 \<and> \<not> bit g 3)" for g :: u8
  by (auto simp add: u8_eq_bits bit_simps)

section \<open>The committed byte\<close>

lemma pwm_byte_low: "pwm_byte x AND 0x0F = 0x0F"
  by (simp add: pwm_byte_def u8_eq_bits bit_simps)

lemma pwm_byte_high: "\<not> bit x 4 \<Longrightarrow> drop_bit 4 (pwm_byte x) = x AND 0x0F"
  by (simp add: pwm_byte_def u8_eq_bits bit_simps)

lemma pwm_byte_ge: "0x0F \<le> pwm_byte x"
proof -
  have "pwm_byte x AND 0x0F \<le> pwm_byte x" by (rule word_and_le2)
  then show ?thesis by (simp only: pwm_byte_low)
qed

lemma u8_high_bits: "8 \<le> n \<Longrightarrow> bit (x :: u8) n = False"
  by (auto dest: bit_imp_le_length)

lemma pwm_byte_nibble: "\<not> bit x 4 \<Longrightarrow> pwm_byte x = push_bit 4 (x AND 0x0F) OR 0x0F"
  by (simp add: pwm_byte_def u8_eq_bits bit_simps u8_high_bits)

lemma unat_eqD: "unat (y :: u8) = k \<Longrightarrow> y = of_nat k"
  by auto

lemma u8_le15_cases:
  assumes "(y :: u8) \<le> 15"
  shows "y \<in> {0, 1, 2, 3, 4, 5, 6, 7, 8, 9, 10, 11, 12, 13, 14, 15}"
proof -
  from assms have "unat y < 16" by (simp add: word_le_nat_alt)
  then have "unat y = 0 \<or> unat y = 1 \<or> unat y = 2 \<or> unat y = 3 \<or> unat y = 4
    \<or> unat y = 5 \<or> unat y = 6 \<or> unat y = 7 \<or> unat y = 8 \<or> unat y = 9 \<or> unat y = 10
    \<or> unat y = 11 \<or> unat y = 12 \<or> unat y = 13 \<or> unat y = 14 \<or> unat y = 15"
    by arith
  then show ?thesis by (auto dest!: unat_eqD)
qed

lemma nibble_levels:
  assumes "(y :: u8) \<le> 15"
  shows "push_bit 4 y OR 0x0F \<in> {0x0F, 0x1F, 0x2F, 0x3F, 0x4F, 0x5F, 0x6F, 0x7F,
                         0x8F, 0x9F, 0xAF, 0xBF, 0xCF, 0xDF, 0xEF, 0xFF :: u8}"
    and "unat (push_bit 4 y OR 0x0F) = 16 * unat y + 15"
    and "push_bit 4 y OR 0x0F = 0xFF \<longleftrightarrow> y = 0x0F"
  using u8_le15_cases[OF assms] by auto

lemma pwm_byte_levels:
  assumes "\<not> bit x 4"
  shows "pwm_byte x \<in> {0x0F, 0x1F, 0x2F, 0x3F, 0x4F, 0x5F, 0x6F, 0x7F,
                         0x8F, 0x9F, 0xAF, 0xBF, 0xCF, 0xDF, 0xEF, 0xFF}"
    and "unat (pwm_byte x) = 16 * unat (x AND 0x0F) + 15"
    and "pwm_byte x = 0xFF \<longleftrightarrow> x AND 0x0F = 0x0F"
  unfolding pwm_byte_nibble[OF assms]
  by (rule nibble_levels[OF word_and_le1])+

section \<open>Observations of a tick and the example states\<close>

lemma tick_labels_eq:
  "tick_labels s = (if regen_due s then [NEW_RAND] else []) @
       NEW_PWM # (if next_ctr (regs s R24) = 0x1F then [SET_PWM, RETI] else [RETI])"
  by (simp add: tick_labels_def tick_out)

lemma tick_writes_eq:
  "tick_writes s = (if next_ctr (regs s R24) = 0x1F then [pwm_byte (regs s R20)] else [])"
  by (simp add: tick_writes_def tick_out)

lemma regenerates_eq: "regenerates s = regen_due s"
  by (simp add: regenerates_def tick_labels_eq)

lemma example_state_simps:
  "regs (example_state c g) R24 = c" "regs (example_state c g) R20 = g"
  "regs (example_state c g) R21 = 0" "regs (example_state c g) R22 = 0"
  "regs (example_state c g) R23 = 0" "port_log (example_state c g) = []"
  "path (example_state c g) = []" "OCR0A (example_state c g) = 0"
  by (simp_all add: example_state_def power_on_def)

lemma RAND_example_state: "RAND (example_state c g) = ucast g"
  by (simp add: RAND_def example_state_simps)

lemma RAND_power_on: "RAND power_on = 0"
  by (simp add: RAND_def power_on_def)

lemma FRAME_CTR_tick_example: "FRAME_CTR (TIM0_OVF_vect (example_state c g)) = next_ctr c"
  by (simp add: FRAME_CTR_def tick_regs example_state_simps)

lemma low_byte_example: "low_byte (RAND (example_state c g)) = g"
  by (simp add: low_byte_RAND example_state_simps)

section \<open>The regeneration step\<close>

text \<open>
  C2, as the specification states it: the feedback constant is applied when the bit
  shifted out is 1 and the shifted register is left alone when it is 0.  The routine does
  the opposite.  From the all-zero generator the bit shifted out is 0 and the routine
  yields \<open>0x7FFFF159\<close> where the specification's step yields 0; from the generator 1 the
  bit shifted out is 1 and the routine yields 0 where the specification's step yields
  \<open>0x7FFFF159\<close>.
\<close>

theorem regeneration_step_counterexample:
  "RAND power_on = 0 \<and> RAND (lfsr_advance power_on) = 0x7FFFF159
   \<and> spec_regeneration_step (RAND power_on) = 0
   \<and> RAND (example_state 0 1) = 1 \<and> RAND (lfsr_advance (example_state 0 1)) = 0
   \<and> spec_regeneration_step (RAND (example_state 0 1)) = 0x7FFFF159"
  by (simp add: RAND_lfsr_advance RAND_power_on RAND_example_state lfsr_next_def
      spec_regeneration_step_def LFSR_FEEDBACK_TERM_def)

text \<open>
  C2, amended: for every generator value, one regeneration step shifts the 32-bit
  register right by one bit; if the bit shifted out (bit 0 before the shift) was 0, the
  shifted register is exclusive-ored with \<open>0x7FFFF159\<close>; if it was 1, the shifted register
  is left unmodified.  The frame counter is not touched.
\<close>

theorem regeneration_step:
  "RAND (lfsr_advance s) =
     (if bit (RAND s) 0 then drop_bit 1 (RAND s) else drop_bit 1 (RAND s) XOR 0x7FFFF159)
   \<and> FRAME_CTR (lfsr_advance s) = FRAME_CTR s"
  by (simp add: RAND_lfsr_advance lfsr_next_def LFSR_FEEDBACK_TERM_def FRAME_CTR_def
      lfsr_advance_regs)

theorem regeneration_step_witness:
  "RAND (lfsr_advance power_on) = 0x7FFFF159 \<and> RAND (lfsr_advance (example_state 0 1)) = 0"
  using regeneration_step[of power_on] regeneration_step[of "example_state 0 1"]
  by (simp add: RAND_power_on RAND_example_state)

section \<open>The commit step\<close>

text \<open>
  C3: in the tick whose incremented frame counter is 31 the generator is not changed and
  one byte is written to \<open>OCR0A\<close>.  If bit 4 of the generator's low byte is set the byte
  is \<open>0xFF\<close>; otherwise its high nibble is the low nibble of the generator's low byte and
  its low nibble is \<open>0xF\<close>.  The low byte \<open>0b00000101\<close> commits \<open>0x5F\<close>.
\<close>

theorem commit_mapping:
  assumes "FRAME_CTR (TIM0_OVF_vect s) = 0x1F"
  shows "RAND (TIM0_OVF_vect s) = RAND s
    \<and> tick_writes s = [OCR0A (TIM0_OVF_vect s)]
    \<and> (bit (low_byte (RAND s)) 4 \<longrightarrow> OCR0A (TIM0_OVF_vect s) = 0xFF)
    \<and> (\<not> bit (low_byte (RAND s)) 4 \<longrightarrow>
          drop_bit 4 (OCR0A (TIM0_OVF_vect s)) = low_byte (RAND s) AND 0x0F
          \<and> OCR0A (TIM0_OVF_vect s) AND 0x0F = 0x0F)
    \<and> (low_byte (RAND s) = 0x05 \<longrightarrow> OCR0A (TIM0_OVF_vect s) = 0x5F)"
proof -
  from assms have c: "next_ctr (regs s R24) = 0x1F"
    by (simp add: FRAME_CTR_def tick_regs)
  have o: "OCR0A (TIM0_OVF_vect s) = pwm_byte (low_byte (RAND s))"
    using c by (simp add: tick_out low_byte_RAND)
  have "RAND (TIM0_OVF_vect s) = RAND s"
    using regen_due_not_31[OF c] by (simp add: RAND_tick)
  moreover have "tick_writes s = [OCR0A (TIM0_OVF_vect s)]"
    using c by (simp add: tick_writes_eq tick_out)
  moreover have "bit (low_byte (RAND s)) 4 \<longrightarrow> OCR0A (TIM0_OVF_vect s) = 0xFF"
    by (simp add: o pwm_byte_def)
  moreover have "\<not> bit (low_byte (RAND s)) 4 \<longrightarrow>
          drop_bit 4 (OCR0A (TIM0_OVF_vect s)) = low_byte (RAND s) AND 0x0F
          \<and> OCR0A (TIM0_OVF_vect s) AND 0x0F = 0x0F"
    by (simp add: o pwm_byte_high pwm_byte_low)
  moreover have "low_byte (RAND s) = 0x05 \<longrightarrow> OCR0A (TIM0_OVF_vect s) = 0x5F"
    by (simp add: o pwm_byte_def)
  ultimately show ?thesis by simp
qed

theorem commit_mapping_witness:
  "FRAME_CTR (TIM0_OVF_vect (example_state 0x1E 0x05)) = 0x1F
   \<and> low_byte (RAND (example_state 0x1E 0x05)) = 0x05
   \<and> OCR0A (TIM0_OVF_vect (example_state 0x1E 0x05)) = 0x5F
   \<and> FRAME_CTR (TIM0_OVF_vect (example_state 0x1E 0x1C)) = 0x1F
   \<and> bit (low_byte (RAND (example_state 0x1E 0x1C))) 4
   \<and> OCR0A (TIM0_OVF_vect (example_state 0x1E 0x1C)) = 0xFF"
proof -
  have a: "FRAME_CTR (TIM0_OVF_vect (example_state 0x1E 0x05)) = 0x1F"
    and b: "FRAME_CTR (TIM0_OVF_vect (example_state 0x1E 0x1C)) = 0x1F"
    by (simp_all add: FRAME_CTR_tick_example next_ctr_def)
  show ?thesis
    using a b commit_mapping[OF a] commit_mapping[OF b]
    by (simp add: low_byte_example)
qed

section \<open>The regeneration schedule\<close>

text \<open>
  C5: in a tick a regeneration occurs (control passes \<open>.LNEW_RAND\<close>, once) if and only if
  the incremented frame counter is 0, or it is 8, 16 or 24 and bits 2 and 3 of the
  generator's low byte are both zero.  The generator after the tick is the regenerated one
  in that case and the unchanged one otherwise.
\<close>

theorem regeneration_schedule:
  "(regenerates s \<longleftrightarrow>
      FRAME_CTR (TIM0_OVF_vect s) = 0
      \<or> (FRAME_CTR (TIM0_OVF_vect s) \<in> {8, 16, 24}
          \<and> \<not> bit (low_byte (RAND s)) 2 \<and> \<not> bit (low_byte (RAND s)) 3))
   \<and> count_list (tick_labels s) NEW_RAND = (if regenerates s then 1 else 0)
   \<and> RAND (TIM0_OVF_vect s) = (if regenerates s then RAND (lfsr_advance s) else RAND s)"
proof -
  have "regen_due s \<longleftrightarrow>
      FRAME_CTR (TIM0_OVF_vect s) = 0
      \<or> (FRAME_CTR (TIM0_OVF_vect s) \<in> {8, 16, 24}
          \<and> \<not> bit (low_byte (RAND s)) 2 \<and> \<not> bit (low_byte (RAND s)) 3)"
    unfolding FRAME_CTR_def tick_regs low_byte_RAND regen_due_def and12
    using next_ctr_checkpoint[of "regs s R24"] by auto
  moreover have "count_list (tick_labels s) NEW_RAND = (if regen_due s then 1 else 0)"
    by (simp add: tick_labels_eq)
  ultimately show ?thesis
    by (simp add: regenerates_eq RAND_tick)
qed

theorem regeneration_schedule_witness:
  "regenerates (example_state 0x1F 0x1C) \<and> FRAME_CTR (TIM0_OVF_vect (example_state 0x1F 0x1C)) = 0
   \<and> regenerates (example_state 7 0x13) \<and> FRAME_CTR (TIM0_OVF_vect (example_state 7 0x13)) = 8
   \<and> \<not> regenerates (example_state 7 0x1C)
   \<and> \<not> regenerates (example_state 8 0x13) \<and> FRAME_CTR (TIM0_OVF_vect (example_state 8 0x13)) = 9
   \<and> RAND (TIM0_OVF_vect (example_state 7 0x13)) = RAND (lfsr_advance (example_state 7 0x13))
   \<and> RAND (TIM0_OVF_vect (example_state 7 0x1C)) = 0x1C"
  using regeneration_schedule[of "example_state 0x1F 0x1C"]
    regeneration_schedule[of "example_state 7 0x13"]
    regeneration_schedule[of "example_state 7 0x1C"]
    regeneration_schedule[of "example_state 8 0x13"]
  by (simp add: FRAME_CTR_tick_example low_byte_example next_ctr_def RAND_example_state
      low_byte_def)

section \<open>Ticks without a commit\<close>

text \<open>
  C8: in a tick whose incremented frame counter is not 31 nothing is written to \<open>OCR0A\<close>:
  the register keeps its value, the log of writes is unchanged and \<open>.LSET_PWM\<close> is not
  passed, whatever the generator holds.
\<close>

theorem no_write_before_commit:
  assumes "FRAME_CTR (TIM0_OVF_vect s) \<noteq> 0x1F"
  shows "OCR0A (TIM0_OVF_vect s) = OCR0A s \<and> port_log (TIM0_OVF_vect s) = port_log s
         \<and> tick_writes s = [] \<and> SET_PWM \<notin> set (tick_labels s)"
  using assms by (simp add: FRAME_CTR_def tick_regs tick_out tick_writes_eq tick_labels_eq)

theorem no_write_before_commit_witness:
  "FRAME_CTR (TIM0_OVF_vect (example_state 0x1F 0x05)) \<noteq> 0x1F
   \<and> OCR0A (TIM0_OVF_vect (example_state 0x1F 0x05)) = 0
   \<and> port_log (TIM0_OVF_vect (example_state 0x1F 0x05)) = []"
proof -
  have a: "FRAME_CTR (TIM0_OVF_vect (example_state 0x1F 0x05)) \<noteq> 0x1F"
    by (simp add: FRAME_CTR_tick_example next_ctr_def)
  show ?thesis using a no_write_before_commit[OF a] by (simp add: example_state_simps)
qed

section \<open>Several ticks\<close>

lemma funpow_tick_Suc: "(TIM0_OVF_vect ^^ Suc n) s = TIM0_OVF_vect ((TIM0_OVF_vect ^^ n) s)"
  by simp

lemma unat_next_ctr: "unat (next_ctr c) = (unat c + 1) mod 32"
proof -
  have m: "(0x1F :: u8) = mask 5" by (simp add: mask_eq_exp_minus_1)
  have "unat (next_ctr c) = unat (take_bit 5 (c + 1))"
    by (simp only: next_ctr_def m take_bit_eq_mask)
  also have "\<dots> = unat (c + 1) mod 32"
    by (simp add: unsigned_take_bit_eq take_bit_eq_mod unat_mod_distrib)
  also have "\<dots> = ((unat c + 1) mod 256) mod 32"
    by (simp add: unat_word_ariths)
  also have "\<dots> = (unat c + 1) mod 32"
    by (simp add: mod_mod_cancel)
  finally show ?thesis .
qed

lemma next_ctr_eq_iff:
  "next_ctr c = 0x1F \<longleftrightarrow> (unat c + 1) mod 32 = 31"
  "next_ctr c = 0 \<longleftrightarrow> (unat c + 1) mod 32 = 0"
  using unat_next_ctr[of c] by (auto simp: word_unat_eq_iff)

lemma next_ctr_and7: "next_ctr c AND 7 = 0 \<longleftrightarrow> (unat c + 1) mod 8 = 0"
proof -
  have m: "(7 :: u8) = mask 3" by (simp add: mask_eq_exp_minus_1)
  have "unat (next_ctr c AND 7) = unat (next_ctr c) mod 8"
    by (simp only: m take_bit_eq_mask[symmetric]) (simp add: unsigned_take_bit_eq take_bit_eq_mod unat_mod_distrib)
  also have "\<dots> = (unat c + 1) mod 8"
    by (simp add: unat_next_ctr mod_mod_cancel)
  finally have "unat (next_ctr c AND 7) = (unat c + 1) mod 8" .
  then show ?thesis by (auto simp: word_unat_eq_iff)
qed

lemma port_log_funpow:
  "\<exists>ws. port_log ((TIM0_OVF_vect ^^ n) s) = port_log s @ ws \<and> (\<forall>b\<in>set ws. \<exists>x. b = pwm_byte x)"
proof (induction n)
  case 0
  show ?case by simp
next
  case (Suc n)
  then obtain ws where ws: "port_log ((TIM0_OVF_vect ^^ n) s) = port_log s @ ws"
    "\<forall>b\<in>set ws. \<exists>x. b = pwm_byte x" by blast
  let ?t = "(TIM0_OVF_vect ^^ n) s"
  let ?e = "if next_ctr (regs ?t R24) = 0x1F then [pwm_byte (regs ?t R20)] else []"
  have "port_log ((TIM0_OVF_vect ^^ Suc n) s) = port_log s @ (ws @ ?e)"
    by (simp only: funpow_tick_Suc tick_out ws append_assoc)
  moreover have "\<forall>b\<in>set (ws @ ?e). \<exists>x. b = pwm_byte x"
    using ws(2) by auto
  ultimately show ?case by blast
qed

text \<open>
  C10: every byte written to \<open>OCR0A\<close> in any number of ticks from any state has the low
  nibble \<open>0xF\<close>, so it is at least \<open>0x0F\<close> and never \<open>0x00\<close>.
\<close>

theorem committed_low_nibble:
  "\<forall>b \<in> set (drop (length (port_log s)) (port_log ((TIM0_OVF_vect ^^ n) s))).
      b AND 0x0F = 0x0F \<and> 0x0F \<le> b \<and> b \<noteq> 0x00"
proof -
  obtain ws where ws: "port_log ((TIM0_OVF_vect ^^ n) s) = port_log s @ ws"
    "\<forall>b\<in>set ws. \<exists>x. b = pwm_byte x" using port_log_funpow by blast
  have "b AND 0x0F = 0x0F \<and> 0x0F \<le> b \<and> b \<noteq> 0x00" if "b \<in> set ws" for b
  proof -
    from that ws(2) obtain x where b: "b = pwm_byte x" by blast
    have "0x0F \<le> pwm_byte x" by (rule pwm_byte_ge)
    moreover from this have "pwm_byte x \<noteq> 0" by auto
    ultimately show ?thesis by (simp add: b pwm_byte_low)
  qed
  then show ?thesis by (simp add: ws(1))
qed

theorem committed_low_nibble_witness:
  "(0x5F :: u8) \<in> set (drop (length (port_log (example_state 0x1E 0x05)))
      (port_log ((TIM0_OVF_vect ^^ 1) (example_state 0x1E 0x05))))
   \<and> (0x5F :: u8) AND 0x0F = 0x0F \<and> (0x0F :: u8) \<le> 0x5F \<and> (0x5F :: u8) \<noteq> 0x00"
proof -
  have a: "(0x5F :: u8) \<in> set (drop (length (port_log (example_state 0x1E 0x05)))
      (port_log ((TIM0_OVF_vect ^^ 1) (example_state 0x1E 0x05))))"
    by (simp add: tick_out example_state_simps next_ctr_def pwm_byte_def)
  from committed_low_nibble[of "example_state 0x1E 0x05" 1, rule_format, OF a] a
  show ?thesis by blast
qed

section \<open>Counting over a cycle of 32 ticks\<close>

text \<open>One tick, in numbers.\<close>

lemma tick_frame: "unat (FRAME_CTR (TIM0_OVF_vect s)) = (unat (FRAME_CTR s) + 1) mod 32"
  by (simp add: FRAME_CTR_def tick_regs unat_next_ctr)

lemma tick_commits:
  "commits (TIM0_OVF_vect s) =
     commits s + (if (unat (FRAME_CTR s) + 1) mod 32 = 31 then 1 else 0)"
  by (simp add: commits_def tick_out next_ctr_eq_iff FRAME_CTR_def)

lemma tick_regenerations:
  "regenerations (TIM0_OVF_vect s) = regenerations s + (if regen_due s then 1 else 0)"
  by (simp add: regenerations_def tick_out)

lemma regen_due_lower: "(unat (FRAME_CTR s) + 1) mod 32 = 0 \<Longrightarrow> regen_due s"
  by (simp add: regen_due_def next_ctr_eq_iff FRAME_CTR_def)

lemma regen_due_upper: "regen_due s \<Longrightarrow> (unat (FRAME_CTR s) + 1) mod 8 = 0"
proof -
  assume "regen_due s"
  then have "next_ctr (regs s R24) AND 7 = 0"
    by (auto simp: regen_due_def)
  then show ?thesis by (simp add: next_ctr_and7 FRAME_CTR_def)
qed

lemma div_Suc_32: "Suc x div 32 = x div 32 + (if x mod 32 = 31 then 1 else 0)"
  by (simp add: div_Suc mod_Suc)

lemma div_Suc_8: "Suc x div 8 = x div 8 + (if x mod 8 = 7 then 1 else 0)"
  by (simp add: div_Suc mod_Suc)

lemma Suc_mod_0_iff: "Suc x mod 32 = 0 \<longleftrightarrow> x mod 32 = 31" "Suc x mod 8 = 0 \<longleftrightarrow> x mod 8 = 7"
  by (simp_all add: mod_Suc)

lemma frame_funpow:
  "unat (FRAME_CTR ((TIM0_OVF_vect ^^ n) s)) mod 32 = (unat (FRAME_CTR s) + n) mod 32"
proof (induction n)
  case 0
  show ?case by simp
next
  case (Suc n)
  have "unat (FRAME_CTR ((TIM0_OVF_vect ^^ Suc n) s)) mod 32
        = Suc (unat (FRAME_CTR ((TIM0_OVF_vect ^^ n) s)) mod 32) mod 32"
    by (simp add: tick_frame mod_Suc_eq)
  also have "\<dots> = Suc ((unat (FRAME_CTR s) + n) mod 32) mod 32"
    by (simp only: Suc.IH)
  also have "\<dots> = (unat (FRAME_CTR s) + Suc n) mod 32"
    by (simp add: mod_Suc_eq)
  finally show ?case .
qed

lemma next_frame_funpow:
  "Suc (unat (FRAME_CTR ((TIM0_OVF_vect ^^ n) s))) mod 32 = Suc (unat (FRAME_CTR s) + n) mod 32"
  "Suc (unat (FRAME_CTR ((TIM0_OVF_vect ^^ n) s))) mod 8 = Suc (unat (FRAME_CTR s) + n) mod 8"
proof -
  let ?a = "unat (FRAME_CTR ((TIM0_OVF_vect ^^ n) s))" and ?b = "unat (FRAME_CTR s) + n"
  have e: "?a mod 32 = ?b mod 32" by (rule frame_funpow)
  show "Suc ?a mod 32 = Suc ?b mod 32"
    using e by (metis mod_Suc_eq)
  have "?a mod 8 = (?a mod 32) mod 8" "?b mod 8 = (?b mod 32) mod 8"
    by (simp_all add: mod_mod_cancel)
  with e have "?a mod 8 = ?b mod 8" by simp
  then show "Suc ?a mod 8 = Suc ?b mod 8" by (metis mod_Suc_eq)
qed

lemma commits_funpow:
  "commits ((TIM0_OVF_vect ^^ n) s) + Suc (unat (FRAME_CTR s)) div 32
     = commits s + Suc (unat (FRAME_CTR s) + n) div 32"
proof (induction n)
  case 0
  show ?case by simp
next
  case (Suc n)
  have "commits ((TIM0_OVF_vect ^^ Suc n) s) =
        commits ((TIM0_OVF_vect ^^ n) s) +
          (if Suc (unat (FRAME_CTR s) + n) mod 32 = 31 then 1 else 0)"
    using next_frame_funpow(1)[of n s] by (simp add: tick_commits)
  with Suc.IH show ?case
    by (simp add: div_Suc_32)
qed

lemma regenerations_funpow_lower:
  "regenerations s + (unat (FRAME_CTR s) + n) div 32
     \<le> regenerations ((TIM0_OVF_vect ^^ n) s) + unat (FRAME_CTR s) div 32"
proof (induction n)
  case 0
  show ?case by simp
next
  case (Suc n)
  let ?t = "(TIM0_OVF_vect ^^ n) s"
  have "(unat (FRAME_CTR s) + n) mod 32 = 31 \<Longrightarrow> regen_due ?t"
    using next_frame_funpow(1)[of n s] by (intro regen_due_lower) (simp add: Suc_mod_0_iff)
  then have "regenerations ?t + (if (unat (FRAME_CTR s) + n) mod 32 = 31 then 1 else 0)
        \<le> regenerations ((TIM0_OVF_vect ^^ Suc n) s)"
    by (simp add: tick_regenerations)
  with Suc.IH show ?case
    by (simp add: div_Suc_32)
qed

lemma regenerations_funpow_upper:
  "regenerations ((TIM0_OVF_vect ^^ n) s) + unat (FRAME_CTR s) div 8
     \<le> regenerations s + (unat (FRAME_CTR s) + n) div 8"
proof (induction n)
  case 0
  show ?case by simp
next
  case (Suc n)
  let ?t = "(TIM0_OVF_vect ^^ n) s"
  have "regen_due ?t \<Longrightarrow> (unat (FRAME_CTR s) + n) mod 8 = 7"
    using next_frame_funpow(2)[of n s] regen_due_upper[of ?t] by (simp add: Suc_mod_0_iff)
  then have "regenerations ((TIM0_OVF_vect ^^ Suc n) s)
        \<le> regenerations ?t + (if (unat (FRAME_CTR s) + n) mod 8 = 7 then 1 else 0)"
    by (simp add: tick_regenerations)
  with Suc.IH show ?case
    by (simp add: div_Suc_8)
qed

lemma u8_unat_mod_32: "c < 32 \<Longrightarrow> unat c mod 32 = unat c" for c :: u8
  by (simp add: word_less_nat_alt)

lemma FRAME_CTR_funpow_le: "0 < n \<Longrightarrow> unat (FRAME_CTR ((TIM0_OVF_vect ^^ n) s)) < 32"
  by (cases n) (simp_all add: tick_frame)

lemma port_log_funpow_prefix:
  "\<exists>ws. port_log ((TIM0_OVF_vect ^^ n) s) = port_log s @ ws"
proof (induction n)
  case 0
  show ?case by simp
next
  case (Suc n)
  then obtain ws where "port_log ((TIM0_OVF_vect ^^ n) s) = port_log s @ ws" by blast
  then show ?case by (simp add: tick_out)
qed

section \<open>The run from power-on\<close>

lemma power_on_simps: "FRAME_CTR power_on = 0" "commits power_on = 0" "regenerations power_on = 0"
  "port_log power_on = []"
  by (simp_all add: power_on_def FRAME_CTR_def commits_def regenerations_def)

lemma observe_tick: "observe (TIM0_OVF_vect s) = engine_tick (observe s)"
  using regen_due_not_31[of s]
  by (auto simp add: observe_def engine_tick_def Let_def FRAME_CTR_def tick_regs RAND_tick
      RAND_lfsr_advance tick_out low_byte_RAND regen_due_def)

lemma observe_funpow: "observe ((TIM0_OVF_vect ^^ n) s) = (engine_tick ^^ n) (observe s)"
  by (induction n) (simp_all add: observe_tick)

lemma funpow_numeral_step: "(f ^^ numeral k) x = f ((f ^^ pred_numeral k) x)"
  by (simp add: numeral_eq_Suc)

lemma observe_power_on: "observe power_on = (0, 0, [])"
  by (simp add: observe_def power_on_simps RAND_power_on)

lemma engine_tick_eval:
  "engine_tick (c, x, ws) =
     (next_ctr c,
      (if next_ctr c = 0 \<or> (next_ctr c AND 7 = 0 \<and> low_byte x AND 12 = 0) then lfsr_next x else x),
      (if next_ctr c = 0x1F then ws @ [pwm_byte (low_byte x)] else ws))"
  by (auto simp: engine_tick_def Let_def)

lemma run_95:
  "(engine_tick ^^ 95) (0, 0, []) = (0x1F, 0x60000D0F, [0xFF, 0xCF, 0xFF])"
  by (simp add: funpow_numeral_step engine_tick_eval next_ctr_def low_byte_def lfsr_next_def
      pwm_byte_def LFSR_FEEDBACK_TERM_def)

lemma power_on_95:
  "FRAME_CTR ((TIM0_OVF_vect ^^ 95) power_on) = 0x1F"
  "RAND ((TIM0_OVF_vect ^^ 95) power_on) = 0x60000D0F"
  "port_log ((TIM0_OVF_vect ^^ 95) power_on) = [0xFF, 0xCF, 0xFF]"
  "low_byte (RAND ((TIM0_OVF_vect ^^ 95) power_on)) = 0x0F"
proof -
  have "observe ((TIM0_OVF_vect ^^ 95) power_on) = (0x1F, 0x60000D0F, [0xFF, 0xCF, 0xFF])"
    by (simp only: observe_funpow observe_power_on run_95)
  then show "FRAME_CTR ((TIM0_OVF_vect ^^ 95) power_on) = 0x1F"
    and r: "RAND ((TIM0_OVF_vect ^^ 95) power_on) = 0x60000D0F"
    and "port_log ((TIM0_OVF_vect ^^ 95) power_on) = [0xFF, 0xCF, 0xFF]"
    by (simp_all add: observe_def)
  show "low_byte (RAND ((TIM0_OVF_vect ^^ 95) power_on)) = 0x0F"
    by (simp add: r low_byte_def)
qed

lemma run_32: "(engine_tick ^^ 32) (0, 0, []) = (0, 0x3FFFF8AC, [0xFF])"
  by (simp add: funpow_numeral_step engine_tick_eval next_ctr_def low_byte_def lfsr_next_def
      pwm_byte_def LFSR_FEEDBACK_TERM_def)

lemma power_on_32:
  "RAND ((TIM0_OVF_vect ^^ 32) power_on) = 0x3FFFF8AC"
  "port_log ((TIM0_OVF_vect ^^ 32) power_on) = [0xFF]"
proof -
  have "observe ((TIM0_OVF_vect ^^ 32) power_on) = (0, 0x3FFFF8AC, [0xFF])"
    by (simp only: observe_funpow observe_power_on run_32)
  then show "RAND ((TIM0_OVF_vect ^^ 32) power_on) = 0x3FFFF8AC"
    and "port_log ((TIM0_OVF_vect ^^ 32) power_on) = [0xFF]"
    by (simp_all add: observe_def)
qed

section \<open>One cycle of 32 ticks\<close>

lemma funpow_tick_add:
  "(TIM0_OVF_vect ^^ (m + n)) s = (TIM0_OVF_vect ^^ m) ((TIM0_OVF_vect ^^ n) s)"
  by (simp add: funpow_add)

lemma OCR0A_funpow:
  "\<exists>ws. port_log ((TIM0_OVF_vect ^^ n) s) = port_log s @ ws
        \<and> OCR0A ((TIM0_OVF_vect ^^ n) s) = (if ws = [] then OCR0A s else last ws)"
proof (induction n)
  case 0
  show ?case by simp
next
  case (Suc n)
  then obtain ws where ws: "port_log ((TIM0_OVF_vect ^^ n) s) = port_log s @ ws"
    "OCR0A ((TIM0_OVF_vect ^^ n) s) = (if ws = [] then OCR0A s else last ws)" by blast
  let ?t = "(TIM0_OVF_vect ^^ n) s"
  let ?e = "if next_ctr (regs ?t R24) = 0x1F then [pwm_byte (regs ?t R20)] else []"
  have "port_log ((TIM0_OVF_vect ^^ Suc n) s) = port_log s @ (ws @ ?e)"
    by (simp only: funpow_tick_Suc tick_out ws append_assoc)
  moreover have "OCR0A ((TIM0_OVF_vect ^^ Suc n) s)
                 = (if ws @ ?e = [] then OCR0A s else last (ws @ ?e))"
    by (simp add: tick_out ws(2))
  ultimately show ?case by blast
qed

lemma RAND_tick_count:
  "\<exists>m. regenerations ((TIM0_OVF_vect ^^ n) s) = regenerations s + m
       \<and> RAND ((TIM0_OVF_vect ^^ n) s) = (lfsr_next ^^ m) (RAND s)"
proof (induction n)
  case 0
  have "regenerations ((TIM0_OVF_vect ^^ 0) s) = regenerations s + 0
        \<and> RAND ((TIM0_OVF_vect ^^ 0) s) = (lfsr_next ^^ 0) (RAND s)" by simp
  then show ?case by blast
next
  case (Suc n)
  then obtain m where m: "regenerations ((TIM0_OVF_vect ^^ n) s) = regenerations s + m"
    "RAND ((TIM0_OVF_vect ^^ n) s) = (lfsr_next ^^ m) (RAND s)" by blast
  let ?t = "(TIM0_OVF_vect ^^ n) s"
  let ?m = "if regen_due ?t then Suc m else m"
  have "regenerations ((TIM0_OVF_vect ^^ Suc n) s) = regenerations s + ?m
        \<and> RAND ((TIM0_OVF_vect ^^ Suc n) s) = (lfsr_next ^^ ?m) (RAND s)"
    by (simp add: tick_regenerations RAND_tick RAND_lfsr_advance m)
  then show ?case by blast
qed

lemma lfsr_next_explicit:
  "lfsr_next = (\<lambda>x. if bit x 0 then drop_bit 1 x else drop_bit 1 x XOR 0x7FFFF159)"
  by (rule ext) (simp add: lfsr_next_def LFSR_FEEDBACK_TERM_def)

text \<open>The tick of a run in which the number of bytes written goes up.\<close>

lemma commit_tick_exists:
  assumes "commits ((TIM0_OVF_vect ^^ n) s) = commits s + 1"
  shows "\<exists>k<n. commits ((TIM0_OVF_vect ^^ k) s) = commits s
              \<and> commits ((TIM0_OVF_vect ^^ Suc k) s) = commits s + 1"
  using assms
proof (induction n)
  case 0
  then show ?case by simp
next
  case (Suc n)
  let ?t = "(TIM0_OVF_vect ^^ n) s"
  have step: "commits ((TIM0_OVF_vect ^^ Suc n) s) = commits ?t
              \<or> commits ((TIM0_OVF_vect ^^ Suc n) s) = commits ?t + 1"
    by (simp add: tick_commits)
  have mono: "commits s \<le> commits ?t"
    using port_log_funpow_prefix[of n s] by (auto simp: commits_def)
  show ?case
  proof (cases "commits ?t = commits s + 1")
    case True
    from Suc.IH[OF True] obtain k where "k < n" "commits ((TIM0_OVF_vect ^^ k) s) = commits s"
      "commits ((TIM0_OVF_vect ^^ Suc k) s) = commits s + 1" by blast
    then show ?thesis using less_Suc_eq by blast
  next
    case False
    with step Suc.prems mono have "commits ?t = commits s" by auto
    with Suc.prems show ?thesis by blast
  qed
qed

lemma OCR0A_of_log:
  assumes "port_log ((TIM0_OVF_vect ^^ n) s) = port_log s @ ws"
  shows "OCR0A ((TIM0_OVF_vect ^^ n) s) = (if ws = [] then OCR0A s else last ws)"
proof -
  obtain ws' where w: "port_log ((TIM0_OVF_vect ^^ n) s) = port_log s @ ws'"
    "OCR0A ((TIM0_OVF_vect ^^ n) s) = (if ws' = [] then OCR0A s else last ws')"
    using OCR0A_funpow by blast
  from w(1) assms have "ws' = ws" by simp
  with w(2) show ?thesis by simp
qed

lemma port_log_mono:
  assumes "i \<le> j"
  shows "\<exists>ws. port_log ((TIM0_OVF_vect ^^ j) s) = port_log ((TIM0_OVF_vect ^^ i) s) @ ws"
proof -
  from assms have "j = (j - i) + i" by simp
  then have "(TIM0_OVF_vect ^^ j) s = (TIM0_OVF_vect ^^ (j - i)) ((TIM0_OVF_vect ^^ i) s)"
    by (metis funpow_tick_add)
  then show ?thesis
    using port_log_funpow_prefix[of "j - i" "(TIM0_OVF_vect ^^ i) s"] by simp
qed

text \<open>
  A run in which exactly one byte is written: the tick that writes it, and \<open>OCR0A\<close>
  before and after.
\<close>

lemma single_commit_run:
  assumes one: "commits ((TIM0_OVF_vect ^^ n) s) = commits s + 1"
  shows "\<exists>k b. k < n
        \<and> port_log ((TIM0_OVF_vect ^^ k) s) = port_log s
        \<and> FRAME_CTR ((TIM0_OVF_vect ^^ Suc k) s) = 0x1F
        \<and> port_log ((TIM0_OVF_vect ^^ Suc k) s) = port_log s @ [b]
        \<and> port_log ((TIM0_OVF_vect ^^ n) s) = port_log s @ [b]
        \<and> (\<forall>j\<le>n. OCR0A ((TIM0_OVF_vect ^^ j) s) = (if j \<le> k then OCR0A s else b))"
proof -
  let ?T = "\<lambda>j. (TIM0_OVF_vect ^^ j) s"
  from commit_tick_exists[OF one] obtain k where k: "k < n"
    "commits (?T k) = commits s" "commits (?T (Suc k)) = commits s + 1" by blast
  have from0: "\<exists>ws. port_log (?T j) = port_log s @ ws" for j
    using port_log_mono[of 0 j s] by simp
  have logk: "port_log (?T k) = port_log s"
    using from0[of k] k(2) by (auto simp: commits_def)
  from from0[of "Suc k"] obtain ws where ws: "port_log (?T (Suc k)) = port_log s @ ws" by blast
  with k(3) have "length ws = 1" by (simp add: commits_def)
  then obtain b where b: "ws = [b]" by (cases ws) auto
  have logk1: "port_log (?T (Suc k)) = port_log s @ [b]" using ws b by simp
  have "port_log (?T (Suc k)) \<noteq> port_log (?T k)" using logk logk1 by simp
  then have "next_ctr (regs (?T k) R24) = 0x1F"
    by (auto simp: tick_out split: if_splits)
  then have fr: "FRAME_CTR (?T (Suc k)) = 0x1F"
    by (simp add: FRAME_CTR_def tick_regs)
  have late: "port_log (?T j) = port_log s @ [b]" if "k < j" "j \<le> n" for j
  proof -
    from that(1) have "Suc k \<le> j" by simp
    from port_log_mono[OF this, of s] obtain w1 where
      w1: "port_log (?T j) = port_log (?T (Suc k)) @ w1" by blast
    from port_log_mono[OF that(2), of s] obtain w2 where
      w2: "port_log (?T n) = port_log (?T j) @ w2" by blast
    from one w1 w2 logk1 have "w1 = []" by (simp add: commits_def)
    with w1 logk1 show ?thesis by simp
  qed
  have early: "port_log (?T j) = port_log s" if "j \<le> k" for j
  proof -
    from from0[of j] obtain w0 where w0: "port_log (?T j) = port_log s @ w0" by blast
    from port_log_mono[OF that, of s] obtain w1 where
      w1: "port_log (?T k) = port_log (?T j) @ w1" by blast
    from w0 w1 logk have "w0 = []" by simp
    with w0 show ?thesis by simp
  qed
  have ocr: "OCR0A (?T j) = (if j \<le> k then OCR0A s else b)" if "j \<le> n" for j
  proof (cases "j \<le> k")
    case True
    from early[OF True] have "port_log (?T j) = port_log s @ []" by simp
    from OCR0A_of_log[OF this] True show ?thesis by simp
  next
    case False
    then have "k < j" by simp
    from OCR0A_of_log[OF late[OF this that]] False show ?thesis by simp
  qed
  from k(1) have "port_log (?T n) = port_log s @ [b]" by (intro late) simp_all
  with k(1) logk fr logk1 ocr show ?thesis by blast
qed

text \<open>
  C6: each tick increments the frame counter by 1 modulo 32.  Over any 32 consecutive
  ticks the counter returns to its starting value, when that is a frame value below 32,
  as it is at power-on and after every tick.  Exactly one byte is written: there is one
  tick among the 32, the one whose incremented counter is 31, before which \<open>OCR0A\<close> and
  the log of writes are as at the start, and from which on \<open>OCR0A\<close> holds the byte
  written.  Between one and four regenerations occur, and the generator after the 32
  ticks is the result of that many regeneration steps on the generator at the start.
\<close>

theorem frame_cycle:
  "unat (FRAME_CTR (TIM0_OVF_vect s)) = (unat (FRAME_CTR s) + 1) mod 32
   \<and> (FRAME_CTR s < 32 \<longrightarrow> FRAME_CTR ((TIM0_OVF_vect ^^ 32) s) = FRAME_CTR s)
   \<and> FRAME_CTR ((TIM0_OVF_vect ^^ 32) (TIM0_OVF_vect s)) = FRAME_CTR (TIM0_OVF_vect s)
   \<and> commits ((TIM0_OVF_vect ^^ 32) s) = commits s + 1
   \<and> (\<exists>b. port_log ((TIM0_OVF_vect ^^ 32) s) = port_log s @ [b])
   \<and> (tick_writes t \<noteq> [] \<longleftrightarrow> FRAME_CTR (TIM0_OVF_vect t) = 0x1F)
   \<and> regenerations s + 1 \<le> regenerations ((TIM0_OVF_vect ^^ 32) s)
   \<and> regenerations ((TIM0_OVF_vect ^^ 32) s) \<le> regenerations s + 4
   \<and> (\<exists>k b. k < 32
        \<and> port_log ((TIM0_OVF_vect ^^ k) s) = port_log s
        \<and> FRAME_CTR ((TIM0_OVF_vect ^^ Suc k) s) = 0x1F
        \<and> port_log ((TIM0_OVF_vect ^^ Suc k) s) = port_log s @ [b]
        \<and> port_log ((TIM0_OVF_vect ^^ 32) s) = port_log s @ [b]
        \<and> OCR0A ((TIM0_OVF_vect ^^ 32) s) = b
        \<and> (\<forall>j\<le>32. OCR0A ((TIM0_OVF_vect ^^ j) s) = (if j \<le> k then OCR0A s else b)))
   \<and> (\<exists>m. 1 \<le> m \<and> m \<le> 4
        \<and> regenerations ((TIM0_OVF_vect ^^ 32) s) = regenerations s + m
        \<and> RAND ((TIM0_OVF_vect ^^ 32) s) =
            ((\<lambda>x. if bit x 0 then drop_bit 1 x else drop_bit 1 x XOR 0x7FFFF159) ^^ m) (RAND s))"
proof -
  let ?u = "(TIM0_OVF_vect ^^ 32) s"
  have 1: "unat (FRAME_CTR (TIM0_OVF_vect s)) = (unat (FRAME_CTR s) + 1) mod 32"
    by (rule tick_frame)
  have ret: "FRAME_CTR ((TIM0_OVF_vect ^^ 32) r) = FRAME_CTR r" if "FRAME_CTR r < 32" for r
  proof -
    have "unat (FRAME_CTR ((TIM0_OVF_vect ^^ 32) r)) mod 32 = unat (FRAME_CTR r) mod 32"
      by (simp add: frame_funpow)
    moreover have "unat (FRAME_CTR ((TIM0_OVF_vect ^^ 32) r)) < 32"
      by (rule FRAME_CTR_funpow_le) simp
    ultimately have "unat (FRAME_CTR ((TIM0_OVF_vect ^^ 32) r)) = unat (FRAME_CTR r)"
      using u8_unat_mod_32[OF that] by simp
    then show ?thesis by (simp add: word_unat_eq_iff)
  qed
  have 2: "FRAME_CTR s < 32 \<longrightarrow> FRAME_CTR ?u = FRAME_CTR s"
    using ret[of s] by blast
  have "unat (FRAME_CTR (TIM0_OVF_vect s)) < 32"
    by (simp add: tick_frame)
  then have "FRAME_CTR (TIM0_OVF_vect s) < 32"
    by (simp add: word_less_nat_alt)
  then have 8: "FRAME_CTR ((TIM0_OVF_vect ^^ 32) (TIM0_OVF_vect s)) = FRAME_CTR (TIM0_OVF_vect s)"
    by (rule ret)
  have 3: "commits ?u = commits s + 1"
    using commits_funpow[of 32 s] by (simp add: div_add_self2)
  from single_commit_run[OF 3] obtain k b where kb: "k < 32"
    "port_log ((TIM0_OVF_vect ^^ k) s) = port_log s"
    "FRAME_CTR ((TIM0_OVF_vect ^^ Suc k) s) = 0x1F"
    "port_log ((TIM0_OVF_vect ^^ Suc k) s) = port_log s @ [b]"
    "port_log ?u = port_log s @ [b]"
    "\<forall>j\<le>32. OCR0A ((TIM0_OVF_vect ^^ j) s) = (if j \<le> k then OCR0A s else b)"
    by blast
  from kb(5) have 4: "\<exists>b. port_log ?u = port_log s @ [b]" by blast
  from kb(1,6) have "OCR0A ?u = b" by auto
  with kb have 9: "\<exists>k b. k < 32
        \<and> port_log ((TIM0_OVF_vect ^^ k) s) = port_log s
        \<and> FRAME_CTR ((TIM0_OVF_vect ^^ Suc k) s) = 0x1F
        \<and> port_log ((TIM0_OVF_vect ^^ Suc k) s) = port_log s @ [b]
        \<and> port_log ?u = port_log s @ [b]
        \<and> OCR0A ?u = b
        \<and> (\<forall>j\<le>32. OCR0A ((TIM0_OVF_vect ^^ j) s) = (if j \<le> k then OCR0A s else b))"
    by blast
  have 5: "tick_writes t \<noteq> [] \<longleftrightarrow> FRAME_CTR (TIM0_OVF_vect t) = 0x1F"
    by (simp add: tick_writes_eq FRAME_CTR_def tick_regs)
  have 6: "regenerations s + 1 \<le> regenerations ?u"
    using regenerations_funpow_lower[of s 32] by simp
  have 7: "regenerations ?u \<le> regenerations s + 4"
    using regenerations_funpow_upper[of 32 s] by simp
  from RAND_tick_count[of 32 s] obtain m where m: "regenerations ?u = regenerations s + m"
    "RAND ?u = (lfsr_next ^^ m) (RAND s)" by blast
  from m(1) 6 7 have "1 \<le> m" "m \<le> 4" by simp_all
  with m have 10: "\<exists>m. 1 \<le> m \<and> m \<le> 4
        \<and> regenerations ?u = regenerations s + m
        \<and> RAND ?u =
            ((\<lambda>x. if bit x 0 then drop_bit 1 x else drop_bit 1 x XOR 0x7FFFF159) ^^ m) (RAND s)"
    unfolding lfsr_next_explicit by blast
  from 1 2 8 3 4 5 6 7 9 10 show ?thesis by blast
qed

theorem frame_cycle_witness:
  "FRAME_CTR power_on < 32
   \<and> FRAME_CTR ((TIM0_OVF_vect ^^ 32) power_on) = 0
   \<and> commits ((TIM0_OVF_vect ^^ 32) power_on) = 1
   \<and> 1 \<le> regenerations ((TIM0_OVF_vect ^^ 32) power_on)
   \<and> regenerations ((TIM0_OVF_vect ^^ 32) power_on) \<le> 4
   \<and> OCR0A ((TIM0_OVF_vect ^^ 32) power_on) = 0xFF
   \<and> (\<exists>m. 1 \<le> m \<and> m \<le> 4 \<and> regenerations ((TIM0_OVF_vect ^^ 32) power_on) = m
          \<and> ((\<lambda>x. if bit x 0 then drop_bit 1 x else drop_bit 1 x XOR 0x7FFFF159) ^^ m) (0 :: u32)
              = 0x3FFFF8AC)"
proof -
  let ?u = "(TIM0_OVF_vect ^^ 32) power_on"
  let ?f = "\<lambda>x :: u32. if bit x 0 then drop_bit 1 x else drop_bit 1 x XOR 0x7FFFF159"
  have a: "FRAME_CTR power_on < 32" by (simp add: power_on_simps)
  note c2 = frame_cycle[of power_on, THEN conjunct2]
  note c4 = c2[THEN conjunct2, THEN conjunct2]
  note c7 = c4[THEN conjunct2, THEN conjunct2, THEN conjunct2]
  note c9 = c7[THEN conjunct2, THEN conjunct2]
  from c2[THEN conjunct1] a have 1: "FRAME_CTR ?u = 0"
    by (simp add: power_on_simps)
  from c4[THEN conjunct1] have 2: "commits ?u = 1"
    by (simp add: power_on_simps)
  from c7[THEN conjunct1] have 3: "1 \<le> regenerations ?u"
    by (simp add: power_on_simps)
  from c7[THEN conjunct2, THEN conjunct1] have 4: "regenerations ?u \<le> 4"
    by (simp add: power_on_simps)
  from c9[THEN conjunct1] obtain b where "port_log ?u = port_log power_on @ [b]" "OCR0A ?u = b"
    by blast
  then have 5: "OCR0A ?u = 0xFF"
    by (simp add: power_on_simps power_on_32)
  from c9[THEN conjunct2] obtain m where m: "1 \<le> m" "m \<le> 4"
    "regenerations ?u = regenerations power_on + m" "RAND ?u = (?f ^^ m) (RAND power_on)"
    by blast
  from m(3) have "regenerations ?u = m" by (simp add: power_on_simps)
  moreover from m(4) have "(?f ^^ m) 0 = 0x3FFFF8AC"
    by (simp only: RAND_power_on power_on_32)
  ultimately have 6: "\<exists>m. 1 \<le> m \<and> m \<le> 4 \<and> regenerations ?u = m
      \<and> (?f ^^ m) 0 = 0x3FFFF8AC"
    using m(1,2) by blast
  from a 1 2 3 4 5 6 show ?thesis by blast
qed

section \<open>The levels of the mapped branch\<close>

text \<open>
  C4, as the specification states it: with bit 4 of the generator's low byte clear the
  committed byte is one of \<open>0x0F\<close>, \<open>0x1F\<close>, ..., \<open>0xEF\<close> and never \<open>0xFF\<close>.  The low byte
  \<open>0x0F\<close> has bit 4 clear, and at frame 31 the routine writes \<open>0xFF\<close> for it: the nibble
  \<open>0xF\<close> is moved to the high position and the low nibble is filled with ones.  The run
  from power-on meets this case at its third commit, in tick 95, where the generator is
  \<open>0x60000D0F\<close>.
\<close>

theorem mapped_branch_counterexample:
  "FRAME_CTR (TIM0_OVF_vect (example_state 0x1E 0x0F)) = 0x1F
   \<and> \<not> bit (low_byte (RAND (example_state 0x1E 0x0F))) 4
   \<and> tick_writes (example_state 0x1E 0x0F) = [0xFF]
   \<and> OCR0A (TIM0_OVF_vect (example_state 0x1E 0x0F)) = 0xFF
   \<and> FRAME_CTR ((TIM0_OVF_vect ^^ 95) power_on) = 0x1F
   \<and> low_byte (RAND ((TIM0_OVF_vect ^^ 95) power_on)) = 0x0F
   \<and> port_log ((TIM0_OVF_vect ^^ 95) power_on) = [0xFF, 0xCF, 0xFF]"
  by (simp add: FRAME_CTR_tick_example low_byte_example tick_writes_eq tick_out
      example_state_simps next_ctr_def pwm_byte_def power_on_95(1,3,4))

text \<open>
  C4, amended: with bit 4 of the generator's low byte clear, the byte committed at frame
  31 is one of the 16 evenly spaced levels \<open>0x0F\<close>, \<open>0x1F\<close>, ..., \<open>0xFF\<close>, namely 16 times
  the low nibble of the generator's low byte plus 15; it is \<open>0xFF\<close> in this branch exactly
  when that nibble is \<open>0xF\<close>.
\<close>

theorem mapped_branch_levels:
  assumes "FRAME_CTR (TIM0_OVF_vect s) = 0x1F" and "\<not> bit (low_byte (RAND s)) 4"
  shows "OCR0A (TIM0_OVF_vect s) \<in> {0x0F, 0x1F, 0x2F, 0x3F, 0x4F, 0x5F, 0x6F, 0x7F,
                                       0x8F, 0x9F, 0xAF, 0xBF, 0xCF, 0xDF, 0xEF, 0xFF}
    \<and> unat (OCR0A (TIM0_OVF_vect s)) = 16 * unat (low_byte (RAND s) AND 0x0F) + 15
    \<and> (OCR0A (TIM0_OVF_vect s) = 0xFF \<longleftrightarrow> low_byte (RAND s) AND 0x0F = 0x0F)"
proof -
  from assms(1) have c: "next_ctr (regs s R24) = 0x1F"
    by (simp add: FRAME_CTR_def tick_regs)
  have o: "OCR0A (TIM0_OVF_vect s) = pwm_byte (low_byte (RAND s))"
    using c by (simp add: tick_out low_byte_RAND)
  show ?thesis
    unfolding o using pwm_byte_levels[OF assms(2)] by blast
qed

theorem mapped_branch_levels_witness:
  "FRAME_CTR (TIM0_OVF_vect (example_state 0x1E 0x05)) = 0x1F
   \<and> \<not> bit (low_byte (RAND (example_state 0x1E 0x05))) 4
   \<and> unat (OCR0A (TIM0_OVF_vect (example_state 0x1E 0x05))) = 95
   \<and> OCR0A (TIM0_OVF_vect (example_state 0x1E 0x05)) \<noteq> 0xFF"
proof -
  have a: "FRAME_CTR (TIM0_OVF_vect (example_state 0x1E 0x05)) = 0x1F"
    by (simp add: FRAME_CTR_tick_example next_ctr_def)
  have b: "\<not> bit (low_byte (RAND (example_state 0x1E 0x05))) 4"
    by (simp add: low_byte_example)
  show ?thesis
    using a b mapped_branch_levels[OF a b] by (simp add: low_byte_example)
qed

section \<open>The generator as a 32-bit map\<close>

lemma u32_high_bits: "32 \<le> n \<Longrightarrow> bit (x :: u32) n = False"
  by (auto dest: bit_imp_le_length)

lemma feedback_bits: "\<not> bit LFSR_FEEDBACK_TERM 31" "bit LFSR_FEEDBACK_TERM 30"
  by (simp_all add: LFSR_FEEDBACK_TERM_def)

lemma lfsr_next_bit31: "\<not> bit (lfsr_next x) 31"
  by (simp add: lfsr_next_def bit_simps feedback_bits u32_high_bits)

lemma lfsr_next_bit30: "\<not> bit x 31 \<Longrightarrow> bit (lfsr_next x) 30 \<longleftrightarrow> \<not> bit x 0"
  by (simp add: lfsr_next_def bit_simps feedback_bits)

lemma top_bit_clear_iff: "\<not> bit x 31 \<longleftrightarrow> x < 2 ^ 31" for x :: u32
proof -
  have "x < 2 ^ 31 \<longleftrightarrow> take_bit 31 x = x"
  proof
    assume "x < 2 ^ 31"
    then show "take_bit 31 x = x" by (simp add: take_bit_eq_mask less_mask_eq)
  next
    assume h: "take_bit 31 x = x"
    have "x AND mask 31 < 2 ^ 31" by (rule and_mask_less_size) (simp add: word_size)
    then show "x < 2 ^ 31" using h by (simp add: take_bit_eq_mask)
  qed
  also have "\<dots> \<longleftrightarrow> \<not> bit x 31"
  proof
    assume "take_bit 31 x = x"
    then have "bit x 31 = bit (take_bit 31 x) 31" by simp
    then show "\<not> bit x 31" by (simp add: bit_simps)
  next
    assume h: "\<not> bit x 31"
    show "take_bit 31 x = x"
    proof (rule bit_word_eqI)
      fix n assume "n < LENGTH(32)"
      then have "n < 31 \<or> n = 31" by auto
      then show "bit (take_bit 31 x) n = bit x n" using h by (auto simp: bit_simps)
    qed
  qed
  finally show ?thesis by simp
qed

lemma xor_right_cancel: "a XOR k = b XOR k \<Longrightarrow> a = b" for a b k :: u32
proof -
  assume "a XOR k = b XOR k"
  then have "(a XOR k) XOR k = (b XOR k) XOR k" by simp
  then show "a = b" by (simp add: xor.assoc)
qed

lemma drop_bit1_eqI:
  assumes "drop_bit 1 x = drop_bit 1 y" and "bit x 0 = bit y 0"
  shows "x = (y :: u32)"
proof (rule bit_word_eqI)
  fix n
  show "bit x n = bit y n"
  proof (cases n)
    case 0
    then show ?thesis using assms(2) by simp
  next
    case (Suc m)
    have "bit (drop_bit 1 x) m = bit (drop_bit 1 y) m" by (simp only: assms(1))
    then show ?thesis by (simp add: bit_simps Suc)
  qed
qed

lemma lfsr_next_inj:
  assumes "\<not> bit x 31" "\<not> bit y 31" "lfsr_next x = lfsr_next y"
  shows "x = y"
proof -
  have "bit (lfsr_next x) 30 = bit (lfsr_next y) 30" by (simp only: assms(3))
  then have b: "bit x 0 = bit y 0"
    by (simp add: lfsr_next_bit30 assms(1,2))
  with assms(3) have "drop_bit 1 x = drop_bit 1 y"
    by (auto simp: lfsr_next_def dest: xor_right_cancel)
  then show ?thesis using b by (rule drop_bit1_eqI)
qed

lemma lfsr_next_0: "lfsr_next 0 = 0x7FFFF159"
  by (simp add: lfsr_next_def LFSR_FEEDBACK_TERM_def)

lemma lfsr_fixed_point: "lfsr_next 0x55555E6E = 0x55555E6E"
  by (simp add: lfsr_next_def LFSR_FEEDBACK_TERM_def)

lemma orbit_bit31: "\<not> bit ((lfsr_next ^^ n) 0) 31"
  by (cases n) (simp_all add: lfsr_next_bit31)

lemma orbit_no_fixed_point: "lfsr_next ((lfsr_next ^^ n) 0) \<noteq> (lfsr_next ^^ n) 0"
proof (induction n)
  case 0
  show ?case by (simp add: lfsr_next_0)
next
  case (Suc n)
  show ?case
  proof
    assume "lfsr_next ((lfsr_next ^^ Suc n) 0) = (lfsr_next ^^ Suc n) 0"
    then have e: "lfsr_next (lfsr_next ((lfsr_next ^^ n) 0)) = lfsr_next ((lfsr_next ^^ n) 0)"
      by simp
    have "lfsr_next ((lfsr_next ^^ n) 0) = (lfsr_next ^^ n) 0"
      by (rule lfsr_next_inj[OF lfsr_next_bit31 orbit_bit31 e])
    with Suc.IH show False by contradiction
  qed
qed

lemma RAND_advance_funpow: "RAND ((lfsr_advance ^^ n) s) = (lfsr_next ^^ n) (RAND s)"
  by (induction n) (simp_all add: RAND_lfsr_advance)

lemma RAND_tick_funpow: "\<exists>k. RAND ((TIM0_OVF_vect ^^ n) s) = (lfsr_next ^^ k) (RAND s)"
proof (induction n)
  case 0
  have "RAND ((TIM0_OVF_vect ^^ 0) s) = (lfsr_next ^^ 0) (RAND s)" by simp
  then show ?case by blast
next
  case (Suc n)
  then obtain k where k: "RAND ((TIM0_OVF_vect ^^ n) s) = (lfsr_next ^^ k) (RAND s)" by blast
  let ?t = "(TIM0_OVF_vect ^^ n) s"
  have "RAND ((TIM0_OVF_vect ^^ Suc n) s) = (lfsr_next ^^ (if regen_due ?t then Suc k else k)) (RAND s)"
    by (simp add: RAND_tick RAND_lfsr_advance k)
  then show ?case by blast
qed

lemma tick_frame0_regen: "FRAME_CTR (TIM0_OVF_vect s) = 0 \<Longrightarrow> regen_due s"
  by (simp add: FRAME_CTR_def tick_regs regen_due_def)

text \<open>
  C7: from the all-zero generator no state reached by repeated regeneration steps, or by
  any number of ticks of the routine, is a fixed point of the regeneration step.  The
  step takes the all-zero generator to \<open>0x7FFFF159\<close>, and so does the tick whose
  incremented frame counter is 0.  (The step has the fixed point \<open>0x55555E6E\<close>; it is
  not among the states reached from 0.)
\<close>

theorem no_degenerate_state:
  assumes "RAND s = 0"
  shows "RAND (lfsr_advance ((lfsr_advance ^^ n) s)) \<noteq> RAND ((lfsr_advance ^^ n) s)
       \<and> RAND (lfsr_advance ((TIM0_OVF_vect ^^ n) s)) \<noteq> RAND ((TIM0_OVF_vect ^^ n) s)
       \<and> RAND (lfsr_advance s) = 0x7FFFF159
       \<and> (FRAME_CTR (TIM0_OVF_vect s) = 0 \<longrightarrow> RAND (TIM0_OVF_vect s) = 0x7FFFF159)"
proof -
  have 1: "RAND (lfsr_advance ((lfsr_advance ^^ n) s)) \<noteq> RAND ((lfsr_advance ^^ n) s)"
    by (simp add: RAND_lfsr_advance RAND_advance_funpow assms orbit_no_fixed_point)
  obtain k where "RAND ((TIM0_OVF_vect ^^ n) s) = (lfsr_next ^^ k) 0"
    using RAND_tick_funpow[of n s] by (auto simp: assms)
  then have 2: "RAND (lfsr_advance ((TIM0_OVF_vect ^^ n) s)) \<noteq> RAND ((TIM0_OVF_vect ^^ n) s)"
    by (simp add: RAND_lfsr_advance orbit_no_fixed_point)
  have 3: "RAND (lfsr_advance s) = 0x7FFFF159"
    by (simp add: RAND_lfsr_advance assms lfsr_next_0)
  have 4: "RAND (TIM0_OVF_vect s) = 0x7FFFF159" if "FRAME_CTR (TIM0_OVF_vect s) = 0"
    using tick_frame0_regen[OF that] 3 by (simp add: RAND_tick)
  from 1 2 3 4 show ?thesis by blast
qed

theorem no_degenerate_state_witness:
  "RAND (example_state 0x1F 0) = 0
   \<and> FRAME_CTR (TIM0_OVF_vect (example_state 0x1F 0)) = 0
   \<and> RAND (TIM0_OVF_vect (example_state 0x1F 0)) = 0x7FFFF159
   \<and> RAND (lfsr_advance ((TIM0_OVF_vect ^^ 1) (example_state 0x1F 0)))
       \<noteq> RAND ((TIM0_OVF_vect ^^ 1) (example_state 0x1F 0))"
proof -
  have a: "RAND (example_state 0x1F 0) = 0" by (simp add: RAND_example_state)
  have b: "FRAME_CTR (TIM0_OVF_vect (example_state 0x1F 0)) = 0"
    by (simp add: FRAME_CTR_tick_example next_ctr_def)
  from no_degenerate_state[OF a, of 1] a b show ?thesis by blast
qed

text \<open>
  C9: the result of a regeneration step has bit 31 clear, that is, it lies below \<open>2^31\<close>.
  After a tick in which a regeneration occurred, and from any state whose generator lies
  below \<open>2^31\<close>, the generator lies below \<open>2^31\<close> after every number of further ticks.
\<close>

theorem generator_top_bit_clear:
  "\<not> bit (RAND (lfsr_advance s)) 31
   \<and> RAND (lfsr_advance s) < 2 ^ 31
   \<and> (regenerates s \<longrightarrow> RAND ((TIM0_OVF_vect ^^ Suc n) s) < 2 ^ 31)
   \<and> (RAND s < 2 ^ 31 \<longrightarrow> RAND ((TIM0_OVF_vect ^^ n) s) < 2 ^ 31)"
proof -
  have 1: "\<not> bit (RAND (lfsr_advance s)) 31"
    by (simp add: RAND_lfsr_advance lfsr_next_bit31)
  have keep: "\<not> bit ((lfsr_next ^^ k) x) 31" if "\<not> bit x 31" for k x
    using that by (cases k) (simp_all add: lfsr_next_bit31)
  have 2: "RAND (lfsr_advance s) < 2 ^ 31"
    using 1 by (simp only: top_bit_clear_iff)
  have inv: "RAND ((TIM0_OVF_vect ^^ m) t) < 2 ^ 31" if "RAND t < 2 ^ 31" for m t
  proof -
    obtain k where k: "RAND ((TIM0_OVF_vect ^^ m) t) = (lfsr_next ^^ k) (RAND t)"
      using RAND_tick_funpow by blast
    from that have "\<not> bit (RAND t) 31" by (simp only: top_bit_clear_iff)
    then have "\<not> bit ((lfsr_next ^^ k) (RAND t)) 31" by (rule keep)
    then show ?thesis by (simp only: top_bit_clear_iff k)
  qed
  have 3: "RAND ((TIM0_OVF_vect ^^ Suc n) s) < 2 ^ 31" if "regenerates s"
  proof -
    from that have "RAND (TIM0_OVF_vect s) = RAND (lfsr_advance s)"
      by (simp add: regenerates_eq RAND_tick)
    with 2 have "RAND (TIM0_OVF_vect s) < 2 ^ 31" by (simp only:)
    from inv[OF this, of n] show ?thesis by (simp only: funpow_Suc_right o_apply)
  qed
  from 1 2 3 inv[of s n] show ?thesis by blast
qed

theorem generator_top_bit_clear_witness:
  "regenerates (example_state 0x1F 0xFF)
   \<and> RAND ((TIM0_OVF_vect ^^ Suc 0) (example_state 0x1F 0xFF)) < 2 ^ 31
   \<and> RAND (example_state 0x1F 0xFF) < 2 ^ 31
   \<and> RAND ((TIM0_OVF_vect ^^ 64) (example_state 0x1F 0xFF)) < 2 ^ 31"
proof -
  have a: "regenerates (example_state 0x1F 0xFF)"
    by (simp add: regenerates_eq regen_due_def example_state_simps next_ctr_def)
  have b: "RAND (example_state 0x1F 0xFF) < 2 ^ 31"
    by (simp add: RAND_example_state)
  from generator_top_bit_clear[of "example_state 0x1F 0xFF" 0]
    generator_top_bit_clear[of "example_state 0x1F 0xFF" 64] a b
  show ?thesis by blast
qed

section \<open>The period of the generator\<close>

lemma xor_div2: "(x XOR y) div 2 = x div 2 XOR y div 2" for x y :: int
  using drop_bit_xor[of 1 x y] by (simp add: drop_bit_eq_div)

lemma double_xor: "2 * (x XOR y) = 2 * x XOR 2 * y" for x y :: int
  using push_bit_xor[of 1 x y] by (simp add: push_bit_eq_mult mult.commute)

lemma lin_zero: "lin cs 0 = 0"
  by (induction cs) simp_all

lemma lin_xor: "lin cs (x XOR y) = lin cs x XOR lin cs y"
  by (induction cs arbitrary: x y) (simp_all add: xor_div2 even_xor_iff ac_simps)

lemma lin_map: "lin (map (lin A) B) x = lin A (lin B x)"
  by (induction B arbitrary: x) (simp_all add: lin_zero lin_xor)

lemma affine_app_comp: "affine_app (affine_comp a b) x = affine_app a (affine_app b x)"
  by (simp add: affine_app_def affine_comp_def lin_map lin_xor ac_simps)

lemma lin_double: "lin (map (\<lambda>c. 2 * c) cs) y = 2 * lin cs y"
  by (induction cs arbitrary: y) (simp_all add: double_xor)

lemma lin_units: "lin (units k) y = take_bit k y"
proof (induction k arbitrary: y)
  case 0
  show ?case by simp
next
  case (Suc k)
  have "lin (units (Suc k)) y = (if odd y then 1 else 0) XOR 2 * take_bit k (y div 2)"
    by (simp only: units.simps lin.simps lin_double Suc.IH)
  also have "\<dots> = take_bit (Suc k) y"
    by (simp add: take_bit_Suc one_xor_eq mod_2_eq_odd)
  finally show ?case .
qed

lemma affine_pow_correct:
  "affine_app acc = f ^^ v \<Longrightarrow> affine_app a = f \<Longrightarrow>
     affine_app (affine_pow a bs acc) = f ^^ bits_nat bs v"
proof (induction bs arbitrary: acc v)
  case Nil
  then show ?case by simp
next
  case (Cons b bs)
  have sq: "affine_app (affine_comp acc acc) = f ^^ (2 * v)"
    by (rule ext) (simp add: affine_app_comp Cons.prems(1) mult_2 funpow_add)
  have sq1: "affine_app (affine_comp a (affine_comp acc acc)) = f ^^ Suc (2 * v)"
    by (rule ext) (simp add: affine_app_comp sq Cons.prems(2))
  show ?case
    using Cons.IH[OF sq Cons.prems(2)] Cons.IH[OF sq1 Cons.prems(2)] by simp
qed

lemma units_numeral: "units (numeral k) = 1 # map (\<lambda>c. 2 * c) (units (pred_numeral k))"
  by (simp add: numeral_eq_Suc)

lemma lfsr_affine_value: "lfsr_affine =
   ([2147479897, 1, 2, 4, 8, 16, 32, 64, 128, 256, 512, 1024, 2048, 4096,
       8192, 16384, 32768, 65536, 131072, 262144, 524288, 1048576, 2097152,
       4194304, 8388608, 16777216, 33554432, 67108864, 134217728, 268435456,
       536870912, 1073741824], 2147479897)"
  by (simp add: lfsr_affine_def units_numeral)

lemma uint_lfsr_next: "uint (lfsr_next x) = affine_app lfsr_affine (uint x)"
proof -
  have d: "uint x div 2 = uint (drop_bit 1 x)"
    by (simp add: drop_bit_eq_div uint_div_distrib)
  have "\<not> bit (drop_bit 1 x) 31"
    by (simp add: bit_simps u32_high_bits)
  then have "drop_bit 1 x < 2 ^ 31"
    by (simp only: top_bit_clear_iff)
  then have "uint (drop_bit 1 x) < 2 ^ 31"
    by (simp add: word_less_def)
  then have t: "take_bit 31 (uint (drop_bit 1 x)) = uint (drop_bit 1 x)"
    by (simp add: take_bit_int_eq_self)
  have o: "odd (uint x) \<longleftrightarrow> bit x 0"
    using bit_uint_iff[of x 0] by (simp add: bit_0)
  have k: "uint LFSR_FEEDBACK_TERM = 0x7FFFF159"
    by (simp add: LFSR_FEEDBACK_TERM_def)
  have "affine_app lfsr_affine (uint x) =
          ((if bit x 0 then uint LFSR_FEEDBACK_TERM else 0) XOR uint (drop_bit 1 x))
            XOR uint LFSR_FEEDBACK_TERM"
    by (simp only: affine_app_def lfsr_affine_def fst_conv snd_conv lin.simps lin_units d t o k)
  also have "\<dots> = uint (lfsr_next x)"
    by (simp add: lfsr_next_def uint_xor ac_simps)
  finally show ?thesis by simp
qed

lemma uint_lfsr_funpow: "uint ((lfsr_next ^^ n) x) = (affine_app lfsr_affine ^^ n) (uint x)"
  by (induction n) (simp_all add: uint_lfsr_next)

lemma period_bits_nat: "bits_nat period_bits 1 = 436905"
  by (simp add: period_bits_def)

lemma affine_period: "affine_app (affine_pow lfsr_affine period_bits lfsr_affine) 0 = 0"
  by (simp add: period_bits_def lfsr_affine_value affine_comp_def affine_app_def)

lemma lfsr_period: "(lfsr_next ^^ 436905) 0 = 0"
proof -
  have "affine_app (affine_pow lfsr_affine period_bits lfsr_affine)
          = affine_app lfsr_affine ^^ bits_nat period_bits 1"
    by (rule affine_pow_correct) simp_all
  then have "(affine_app lfsr_affine ^^ 436905) 0 = 0"
    using affine_period by (simp only: period_bits_nat)
  then have "uint ((lfsr_next ^^ 436905) 0) = 0"
    by (simp add: uint_lfsr_funpow)
  then show ?thesis by (simp add: uint_0_iff del: )
qed

lemma funpow_multiple_fixed: "(f ^^ p) x = x \<Longrightarrow> (f ^^ (p * q)) x = x"
proof (induction q)
  case 0
  show ?case by simp
next
  case (Suc q)
  have "(f ^^ (p * Suc q)) x = (f ^^ (p * q + p)) x"
    by (simp add: add.commute)
  also have "\<dots> = (f ^^ (p * q)) ((f ^^ p) x)"
    by (simp only: funpow_add o_apply)
  finally show ?case using Suc by simp
qed

lemma funpow_mod_period:
  assumes "(f ^^ p) x = x"
  shows "(f ^^ n) x = (f ^^ (n mod p)) x"
proof -
  have "(f ^^ n) x = (f ^^ (n mod p + p * (n div p))) x" by simp
  also have "\<dots> = (f ^^ (n mod p)) ((f ^^ (p * (n div p))) x)"
    by (simp only: funpow_add o_apply)
  also have "\<dots> = (f ^^ (n mod p)) x"
    by (simp only: funpow_multiple_fixed[OF assms])
  finally show ?thesis .
qed

lemma orbit_card:
  assumes "(f ^^ p) x = x" and "0 < p"
  shows "finite (range (\<lambda>k. (f ^^ k) x))" and "card (range (\<lambda>k. (f ^^ k) x)) \<le> p"
proof -
  have sub: "range (\<lambda>k. (f ^^ k) x) \<subseteq> (\<lambda>k. (f ^^ k) x) ` {..<p}"
  proof
    fix y assume "y \<in> range (\<lambda>k. (f ^^ k) x)"
    then obtain k where "y = (f ^^ k) x" by blast
    then have "y = (f ^^ (k mod p)) x" using funpow_mod_period[OF assms(1)] by simp
    moreover have "k mod p \<in> {..<p}" using assms(2) by simp
    ultimately show "y \<in> (\<lambda>k. (f ^^ k) x) ` {..<p}" by blast
  qed
  have fin: "finite ((\<lambda>k. (f ^^ k) x) ` {..<p})" by simp
  show "finite (range (\<lambda>k. (f ^^ k) x))" by (rule finite_subset[OF sub fin])
  have "card (range (\<lambda>k. (f ^^ k) x)) \<le> card ((\<lambda>k. (f ^^ k) x) ` {..<p})"
    by (rule card_mono[OF fin sub])
  also have "\<dots> \<le> card {..<p}" by (rule card_image_le) simp
  finally show "card (range (\<lambda>k. (f ^^ k) x)) \<le> p" by simp
qed

text \<open>
  C1.  The specification asks that the orbit of the all-zero generator under the
  regeneration step has period \<open>2^32 - 1\<close> and visits every non-trivial state.  The routine
  does not do this.  From power-on the generator returns to 0 after 436905 regeneration
  steps, so its values repeat with that period; every value lies below \<open>2^31\<close>, so
  \<open>0x80000000\<close> never occurs; at most 436905 distinct values occur; and the generator
  after any number of ticks is one of them.
\<close>

theorem generator_orbit_short:
  "RAND power_on = 0
   \<and> RAND ((lfsr_advance ^^ 436905) power_on) = 0
   \<and> RAND ((lfsr_advance ^^ n) power_on) = RAND ((lfsr_advance ^^ (n mod 436905)) power_on)
   \<and> RAND ((lfsr_advance ^^ n) power_on) < 2 ^ 31
   \<and> RAND ((lfsr_advance ^^ n) power_on) \<noteq> 0x80000000
   \<and> card (range (\<lambda>k. RAND ((lfsr_advance ^^ k) power_on))) \<le> 436905
   \<and> (\<exists>k. RAND ((TIM0_OVF_vect ^^ n) power_on) = RAND ((lfsr_advance ^^ k) power_on))"
proof -
  have 1: "RAND ((lfsr_advance ^^ 436905) power_on) = 0"
    by (simp only: RAND_advance_funpow RAND_power_on lfsr_period)
  have 2: "RAND ((lfsr_advance ^^ n) power_on) = RAND ((lfsr_advance ^^ (n mod 436905)) power_on)"
    unfolding RAND_advance_funpow RAND_power_on
    by (rule funpow_mod_period[OF lfsr_period])
  have "\<not> bit ((lfsr_next ^^ n) 0) 31" by (rule orbit_bit31)
  then have 3: "RAND ((lfsr_advance ^^ n) power_on) < 2 ^ 31"
    by (simp only: RAND_advance_funpow RAND_power_on top_bit_clear_iff)
  then have 4: "RAND ((lfsr_advance ^^ n) power_on) \<noteq> 0x80000000"
    by auto
  have 5: "card (range (\<lambda>k. RAND ((lfsr_advance ^^ k) power_on))) \<le> 436905"
    unfolding RAND_advance_funpow RAND_power_on
    by (rule orbit_card(2)[OF lfsr_period]) simp
  have 6: "\<exists>k. RAND ((TIM0_OVF_vect ^^ n) power_on) = RAND ((lfsr_advance ^^ k) power_on)"
    using RAND_tick_funpow[of n power_on] by (simp only: RAND_advance_funpow)
  from RAND_power_on 1 2 3 4 5 6 show ?thesis by blast
qed

end
